theory Spec2Isabelle
  imports Main
begin

section \<open>Text\<close>

text \<open>
  A text is a Python \<open>str\<close> whose code points lie below 256: a list of \<^typ>\<open>char\<close>,
  one \<^typ>\<open>char\<close> per code point. The character classes below are Python's on that
  range: \<open>str.isspace\<close> and the pattern class \<open>\s\<close> agree there, \<open>\d\<close> is
  \<open>0-9\<close>, and \<open>\w\<close> is \<open>str.isalnum\<close> or the underscore.
\<close>

definition cp :: "char \<Rightarrow> nat" where
  "cp c = of_char c"

definition is_space :: "char \<Rightarrow> bool" where
  "is_space c = ((9 \<le> cp c \<and> cp c \<le> 13) \<or> (28 \<le> cp c \<and> cp c \<le> 32) \<or> cp c = 133 \<or> cp c = 160)"

definition is_digit :: "char \<Rightarrow> bool" where
  "is_digit c = (48 \<le> cp c \<and> cp c \<le> 57)"

definition is_upper :: "char \<Rightarrow> bool" where
  "is_upper c = ((65 \<le> cp c \<and> cp c \<le> 90) \<or> (192 \<le> cp c \<and> cp c \<le> 222 \<and> cp c \<noteq> 215))"

definition is_lower :: "char \<Rightarrow> bool" where
  "is_lower c = ((97 \<le> cp c \<and> cp c \<le> 122) \<or> (224 \<le> cp c \<and> cp c \<le> 254 \<and> cp c \<noteq> 247))"

definition is_word :: "char \<Rightarrow> bool" where
  "is_word c = (is_digit c \<or> (65 \<le> cp c \<and> cp c \<le> 90) \<or> (97 \<le> cp c \<and> cp c \<le> 122) \<or> cp c = 95
     \<or> cp c = 170 \<or> cp c = 178 \<or> cp c = 179 \<or> cp c = 181 \<or> cp c = 185 \<or> cp c = 186
     \<or> (188 \<le> cp c \<and> cp c \<le> 190) \<or> (192 \<le> cp c \<and> cp c \<noteq> 215 \<and> cp c \<noteq> 247))"

text \<open>\<open>str.lower\<close>, one character at a time: every lower-case image of a code point
  below 256 is again below 256.\<close>

definition lower_char :: "char \<Rightarrow> char" where
  "lower_char c = (if is_upper c then char_of (cp c + 32) else c)"

definition lower :: "string \<Rightarrow> string" where
  "lower s = map lower_char s"

text \<open>\<open>str.upper\<close>: the sharp s (223) becomes \<open>SS\<close>. The upper-case images of the
  micro sign (181) and of y with diaeresis (255) lie above 255; they are kept as they are,
  which no test of this program can tell apart: \<open>upper\<close> is only compared with ASCII
  letters, digits, brackets and white space.\<close>

definition upper_char :: "char \<Rightarrow> char" where
  "upper_char c = (if is_lower c then char_of (cp c - 32) else c)"

definition upper :: "string \<Rightarrow> string" where
  "upper s = concat (map (\<lambda>c. if c = CHR 0xDF then ''SS'' else [upper_char c]) s)"

definition lstrip :: "string \<Rightarrow> string" where
  "lstrip s = dropWhile is_space s"

definition rstrip :: "string \<Rightarrow> string" where
  "rstrip s = rev (dropWhile is_space (rev s))"

definition strip :: "string \<Rightarrow> string" where
  "strip s = rstrip (lstrip s)"

fun startswith :: "string \<Rightarrow> string \<Rightarrow> bool" where
  "startswith s [] = True"
| "startswith [] (p # ps) = False"
| "startswith (c # cs) (p # ps) = (c = p \<and> startswith cs ps)"

definition endswith :: "string \<Rightarrow> string \<Rightarrow> bool" where
  "endswith s p = startswith (rev s) (rev p)"

text \<open>\<open>p in s\<close> on strings.\<close>

fun contains :: "string \<Rightarrow> string \<Rightarrow> bool" where
  "contains [] p = (p = [])"
| "contains (c # cs) p = (startswith (c # cs) p \<or> contains cs p)"

text \<open>The slice \<open>s[i:j]\<close> for \<open>0 \<le> i\<close> and \<open>0 \<le> j\<close>.\<close>

definition slice :: "string \<Rightarrow> nat \<Rightarrow> nat \<Rightarrow> string" where
  "slice s i j = take (j - i) (drop i s)"

text \<open>\<open>int(s)\<close> on a string of decimal digits, and \<open>str(n)\<close>.\<close>

definition digit_val :: "char \<Rightarrow> nat" where
  "digit_val c = cp c - 48"

definition int_of_digits :: "string \<Rightarrow> nat" where
  "int_of_digits s = foldl (\<lambda>n c. 10 * n + digit_val c) 0 s"

text \<open>\<open>int(s)\<close> raises \<open>ValueError\<close> on a string of more than 4300 digits, the default
  of \<open>sys.get_int_max_str_digits()\<close>. Where the pattern bounds the digits (\<open>\d{1,2}\<close>)
  the conversion cannot fail and \<open>int_of_digits\<close> is used as it is.\<close>

datatype error = ValueError

definition int_max_str_digits :: nat where
  "int_max_str_digits = 4300"

definition py_int :: "string \<Rightarrow> error + nat" where
  "py_int s = (if int_max_str_digits < length s then Inl ValueError else Inr (int_of_digits s))"

definition digit_char :: "nat \<Rightarrow> char" where
  "digit_char d = ''0123456789'' ! d"

fun str_of_nat :: "nat \<Rightarrow> string" where
  "str_of_nat n = (if n < 10 then [digit_char n] else str_of_nat (n div 10) @ [digit_char (n mod 10)])"

section \<open>Regular expressions\<close>

text \<open>
  The patterns of the program, as syntax trees, and Python's backtracking matcher as the
  list of all ways a pattern matches at a position, in the order the matcher tries them:
  the head of the list is the match \<open>re\<close> reports.
\<close>

datatype citem = Ch char | Rng char char | WS | Dig | Wrd

datatype regex =
    Lit string
  | Set "citem list"
  | NSet "citem list"
  | Dot
  | Seq regex regex
  | Alt regex regex
  | Rep regex nat "nat option"
  | RepLazy regex nat "nat option"
  | Grp nat regex
  | Backref nat
  | Ahead regex
  | NotAhead regex
  | Bos
  | Eos
  | Dollar

text \<open>Flags: \<open>re.IGNORECASE\<close> and \<open>re.DOTALL\<close>.\<close>

record flags =
  ignorecase :: bool
  dotall :: bool

definition NOFLAGS :: flags where
  "NOFLAGS = \<lparr>ignorecase = False, dotall = False\<rparr>"

definition IGNORECASE :: flags where
  "IGNORECASE = \<lparr>ignorecase = True, dotall = False\<rparr>"

definition IGNORECASE_DOTALL :: flags where
  "IGNORECASE_DOTALL = \<lparr>ignorecase = True, dotall = True\<rparr>"

record mstate =
  pos :: nat
  rest :: string
  caps :: "(nat \<times> string) list"

fun item_match :: "citem \<Rightarrow> char \<Rightarrow> bool" where
  "item_match (Ch c) x = (x = c)"
| "item_match (Rng a b) x = (cp a \<le> cp x \<and> cp x \<le> cp b)"
| "item_match WS x = is_space x"
| "item_match Dig x = is_digit x"
| "item_match Wrd x = is_word x"

text \<open>Under \<open>re.IGNORECASE\<close> a character is in a set when it or one of its case variants
  is.\<close>

definition in_set :: "bool \<Rightarrow> citem list \<Rightarrow> char \<Rightarrow> bool" where
  "in_set ic items x =
     (list_ex (\<lambda>i. item_match i x) items
      \<or> (ic \<and> (list_ex (\<lambda>i. item_match i (lower_char x)) items
                \<or> list_ex (\<lambda>i. item_match i (upper_char x)) items)))"

text \<open>A literal character of a pattern against a character of the text. Under
  \<open>re.IGNORECASE\<close> the matcher compares the lower-case forms. The further pairs it
  treats as equal (\<open>i\<close> and U+0130, U+0131; \<open>s\<close> and U+017F; \<open>k\<close> and U+212A; and the
  like) all have a member above U+00FF, so none lies in a text of this model: what is
  proved below is proved of texts whose code points lie below 256, and of no others.\<close>

definition lit_eq :: "bool \<Rightarrow> char \<Rightarrow> char \<Rightarrow> bool" where
  "lit_eq ic p x = (if ic then lower_char p = lower_char x else p = x)"

definition step1 :: "(char \<Rightarrow> bool) \<Rightarrow> mstate \<Rightarrow> mstate list" where
  "step1 P st = (case rest st of
       [] \<Rightarrow> []
     | c # cs \<Rightarrow> if P c then [st\<lparr>pos := Suc (pos st), rest := cs\<rparr>] else [])"

fun lit_match :: "bool \<Rightarrow> string \<Rightarrow> mstate \<Rightarrow> mstate list" where
  "lit_match ic [] st = [st]"
| "lit_match ic (p # ps) st = concat (map (lit_match ic ps) (step1 (lit_eq ic p) st))"

text \<open>Repetition \<open>r{lo,hi}\<close>: \<open>lo\<close> iterations are still owed, \<open>hi\<close> more are allowed
  (\<open>None\<close>: no bound). The greedy form tries another iteration before stopping, the lazy
  form stops first. The first argument bounds the number of iterations by the number of
  characters left: every repeated pattern of this program consumes a character.\<close>

primrec rep_greedy :: "nat \<Rightarrow> (mstate \<Rightarrow> mstate list) \<Rightarrow> nat \<Rightarrow> nat option \<Rightarrow> mstate \<Rightarrow> mstate list" where
  "rep_greedy 0 m lo hi st = (if lo = 0 then [st] else [])"
| "rep_greedy (Suc n) m lo hi st =
     (if hi = Some 0 then []
      else concat (map (rep_greedy n m (lo - 1) (map_option (\<lambda>h. h - 1) hi)) (m st)))
     @ (if lo = 0 then [st] else [])"

primrec rep_lazy :: "nat \<Rightarrow> (mstate \<Rightarrow> mstate list) \<Rightarrow> nat \<Rightarrow> nat option \<Rightarrow> mstate \<Rightarrow> mstate list" where
  "rep_lazy 0 m lo hi st = (if lo = 0 then [st] else [])"
| "rep_lazy (Suc n) m lo hi st =
     (if lo = 0 then [st] else [])
     @ (if hi = Some 0 then []
        else concat (map (rep_lazy n m (lo - 1) (map_option (\<lambda>h. h - 1) hi)) (m st)))"

primrec rmatch :: "flags \<Rightarrow> regex \<Rightarrow> mstate \<Rightarrow> mstate list" where
  "rmatch f (Lit s) st = lit_match (ignorecase f) s st"
| "rmatch f (Set items) st = step1 (in_set (ignorecase f) items) st"
| "rmatch f (NSet items) st = step1 (\<lambda>c. \<not> in_set (ignorecase f) items c) st"
| "rmatch f Dot st = step1 (\<lambda>c. dotall f \<or> c \<noteq> CHR 0x0A) st"
| "rmatch f (Seq a b) st = concat (map (rmatch f b) (rmatch f a st))"
| "rmatch f (Alt a b) st = rmatch f a st @ rmatch f b st"
| "rmatch f (Rep r lo hi) st = rep_greedy (length (rest st)) (rmatch f r) lo hi st"
| "rmatch f (RepLazy r lo hi) st = rep_lazy (length (rest st)) (rmatch f r) lo hi st"
| "rmatch f (Grp n r) st =
     map (\<lambda>st'. st'\<lparr>caps := (n, take (pos st' - pos st) (rest st)) # caps st'\<rparr>) (rmatch f r st)"
| "rmatch f (Backref n) st =
     (case map_of (caps st) n of None \<Rightarrow> [] | Some g \<Rightarrow> lit_match (ignorecase f) g st)"
| "rmatch f (Ahead r) st =
     (case rmatch f r st of [] \<Rightarrow> [] | st' # _ \<Rightarrow> [st\<lparr>caps := caps st'\<rparr>])"
| "rmatch f (NotAhead r) st = (if rmatch f r st = [] then [st] else [])"
| "rmatch f Bos st = (if pos st = 0 then [st] else [])"
| "rmatch f Eos st = (if rest st = [] then [st] else [])"
| "rmatch f Dollar st = (if rest st = [] \<or> rest st = [CHR 0x0A] then [st] else [])"

text \<open>Pattern syntax: \<open>seq [a, b, c]\<close> is \<open>abc\<close>, \<open>alt [a, b, c]\<close> is \<open>a|b|c\<close>.\<close>

fun seq :: "regex list \<Rightarrow> regex" where
  "seq [] = Lit []"
| "seq [r] = r"
| "seq (r # rs) = Seq r (seq rs)"

fun alt :: "regex list \<Rightarrow> regex" where
  "alt [] = NSet [Rng (CHR 0x00) (CHR 0xFF)]"
| "alt [r] = r"
| "alt (r # rs) = Alt r (alt rs)"

abbreviation Star :: "regex \<Rightarrow> regex" where "Star r \<equiv> Rep r 0 None"
abbreviation Plus :: "regex \<Rightarrow> regex" where "Plus r \<equiv> Rep r 1 None"
abbreviation Opt :: "regex \<Rightarrow> regex" where "Opt r \<equiv> Rep r 0 (Some 1)"
abbreviation Space :: regex where "Space \<equiv> Set [WS]"
abbreviation Digit :: regex where "Digit \<equiv> Set [Dig]"
abbreviation Word :: regex where "Word \<equiv> Set [Wrd]"

section \<open>The functions of module re\<close>

text \<open>A match object: \<open>m.start()\<close>, \<open>m.end()\<close> and the groups that took part.\<close>

record pymatch =
  mstart :: nat
  mend :: nat
  mgroups :: "(nat \<times> string) list"

definition group :: "pymatch \<Rightarrow> nat \<Rightarrow> string" where
  "group m n = (case map_of (mgroups m) n of None \<Rightarrow> [] | Some g \<Rightarrow> g)"

text \<open>The match of pattern \<open>r\<close> that starts at position \<open>p\<close>, where \<open>s\<close> is the text from
  \<open>p\<close> on; group 0 is the matched text.\<close>

definition match_at :: "flags \<Rightarrow> regex \<Rightarrow> nat \<Rightarrow> string \<Rightarrow> pymatch option" where
  "match_at f r p s =
     (case rmatch f r \<lparr>pos = p, rest = s, caps = []\<rparr> of
        [] \<Rightarrow> None
      | st # _ \<Rightarrow> Some \<lparr>mstart = p, mend = pos st, mgroups = (0, take (pos st - p) s) # caps st\<rparr>)"

text \<open>\<open>re.sub(r, repl, text)\<close> with a function \<open>repl\<close>: the scan from position \<open>p\<close>.
  After an empty match the scan copies one character and goes on behind it.\<close>

fun sub_from :: "flags \<Rightarrow> regex \<Rightarrow> (pymatch \<Rightarrow> string) \<Rightarrow> nat \<Rightarrow> string \<Rightarrow> string" where
  "sub_from f r repl p [] = (case match_at f r p [] of None \<Rightarrow> [] | Some m \<Rightarrow> repl m)"
| "sub_from f r repl p (c # cs) =
     (case match_at f r p (c # cs) of
        None \<Rightarrow> c # sub_from f r repl (Suc p) cs
      | Some m \<Rightarrow>
          repl m @ (if mend m = p then c # sub_from f r repl (Suc p) cs
                    else sub_from f r repl (mend m) (drop (mend m - Suc p) cs)))"

definition re_sub :: "flags \<Rightarrow> regex \<Rightarrow> (pymatch \<Rightarrow> string) \<Rightarrow> string \<Rightarrow> string" where
  "re_sub f r repl text = sub_from f r repl 0 text"

text \<open>\<open>re.sub\<close> with a function \<open>repl\<close> that can raise: the first exception ends the scan
  and is the result.\<close>

fun prepend :: "string \<Rightarrow> error + string \<Rightarrow> error + string" where
  "prepend a (Inl e) = Inl e"
| "prepend a (Inr t) = Inr (a @ t)"

fun sub_from_try :: "flags \<Rightarrow> regex \<Rightarrow> (pymatch \<Rightarrow> error + string) \<Rightarrow> nat \<Rightarrow> string \<Rightarrow> error + string" where
  "sub_from_try f r repl p [] = (case match_at f r p [] of None \<Rightarrow> Inr [] | Some m \<Rightarrow> repl m)"
| "sub_from_try f r repl p (c # cs) =
     (case match_at f r p (c # cs) of
        None \<Rightarrow> prepend [c] (sub_from_try f r repl (Suc p) cs)
      | Some m \<Rightarrow>
          (case repl m of
             Inl e \<Rightarrow> Inl e
           | Inr out \<Rightarrow>
               prepend out (if mend m = p then prepend [c] (sub_from_try f r repl (Suc p) cs)
                            else sub_from_try f r repl (mend m) (drop (mend m - Suc p) cs))))"

definition re_sub_try :: "flags \<Rightarrow> regex \<Rightarrow> (pymatch \<Rightarrow> error + string) \<Rightarrow> string \<Rightarrow> error + string" where
  "re_sub_try f r repl text = sub_from_try f r repl 0 text"

text \<open>\<open>pattern.finditer(text)\<close>: the matches \<open>re.sub\<close> would replace.\<close>

fun finditer_from :: "flags \<Rightarrow> regex \<Rightarrow> nat \<Rightarrow> string \<Rightarrow> pymatch list" where
  "finditer_from f r p [] = (case match_at f r p [] of None \<Rightarrow> [] | Some m \<Rightarrow> [m])"
| "finditer_from f r p (c # cs) =
     (case match_at f r p (c # cs) of
        None \<Rightarrow> finditer_from f r (Suc p) cs
      | Some m \<Rightarrow>
          m # (if mend m = p then finditer_from f r (Suc p) cs
               else finditer_from f r (mend m) (drop (mend m - Suc p) cs)))"

definition finditer :: "flags \<Rightarrow> regex \<Rightarrow> string \<Rightarrow> pymatch list" where
  "finditer f r text = finditer_from f r 0 text"

text \<open>\<open>re.search\<close>: the leftmost match; \<open>re.match\<close>: the match at position 0.\<close>

fun search_from :: "flags \<Rightarrow> regex \<Rightarrow> nat \<Rightarrow> string \<Rightarrow> pymatch option" where
  "search_from f r p [] = match_at f r p []"
| "search_from f r p (c # cs) =
     (case match_at f r p (c # cs) of
        None \<Rightarrow> search_from f r (Suc p) cs
      | Some m \<Rightarrow> Some m)"

definition re_search :: "flags \<Rightarrow> regex \<Rightarrow> string \<Rightarrow> pymatch option" where
  "re_search f r text = search_from f r 0 text"

definition re_match :: "flags \<Rightarrow> regex \<Rightarrow> string \<Rightarrow> pymatch option" where
  "re_match f r text = match_at f r 0 text"

section \<open>The figure catalog\<close>

text \<open>\<open>FIGURES\<close>, in the order of the source. The field \<open>desc\<close> is left out: no function
  modelled here reads it. The field \<open>keywords\<close> is named \<open>fig_keywords\<close>.\<close>

record figure =
  num :: nat
  label :: string
  title :: string
  fig_keywords :: "string list"

definition FIGURES :: "figure list" where
  "FIGURES = [
    \<lparr>num = 1, label = ''FIG. 1'', title = ''System Architecture Overview'',
      fig_keywords = [''system architecture'', ''architecture overview'', ''spi system'', ''complete system'', ''overall system'', ''main system'', ''overall architecture'', ''system overview'', ''high-level'', ''system diagram'']\<rparr>,
    \<lparr>num = 2, label = ''FIG. 2'', title = ''Processing Pipeline'',
      fig_keywords = [''processing pipeline'', ''pipeline'', ''workflow'', ''end-to-end'', ''process flow'', ''data flow'', ''ingestion'', ''transcription'', ''media processing'', ''content processing'']\<rparr>,
    \<lparr>num = 3, label = ''FIG. 3'', title = ''Semantic DNA Fingerprint Structure'',
      fig_keywords = [''semantic dna'', ''fingerprint'', ''768'', ''component vector'', ''combined vector'', ''dna structure'', ''128-dimensional'', ''six vectors'', ''fingerprint structure'', ''vector structure'', ''semantic fingerprint'']\<rparr>,
    \<lparr>num = 4, label = ''FIG. 4'', title = ''Narrative Vector Extraction'',
      fig_keywords = [''narrative'', ''three-act'', ''character arc'', ''story structure'', ''plot'', ''thematic'', ''narrative vector'', ''story analysis'', ''conflict progression'', ''narrative extraction'']\<rparr>,
    \<lparr>num = 5, label = ''FIG. 5'', title = ''Visual Grammar Analysis'',
      fig_keywords = [''visual grammar'', ''visual analysis'', ''composition'', ''color palette'', ''visual feature'', ''image analysis'', ''visual vector'', ''motion dynamics'', ''stylistic'', ''visual content'']\<rparr>,
    \<lparr>num = 6, label = ''FIG. 6'', title = ''Auditory Signature Extraction'',
      fig_keywords = [''auditory'', ''audio'', ''prosody'', ''soundscape'', ''speech'', ''music feature'', ''audio analysis'', ''sound'', ''auditory vector'', ''audio extraction'', ''speech analysis'']\<rparr>,
    \<lparr>num = 7, label = ''FIG. 7'', title = ''Temporal Rhythm Analysis'',
      fig_keywords = [''temporal'', ''rhythm'', ''scene transition'', ''pacing'', ''shot'', ''timing'', ''temporal vector'', ''rhythm analysis'', ''shot duration'', ''temporal structure'', ''time-based'', ''temporal rhythm'']\<rparr>,
    \<lparr>num = 8, label = ''FIG. 8'', title = ''Emotional Trajectory Mapping'',
      fig_keywords = [''emotional'', ''trajectory'', ''valence'', ''arousal'', ''dominance'', ''vad'', ''sentiment'', ''emotional vector'', ''emotion tracking'', ''emotional progression'', ''emotional mapping'', ''affect'', ''mood'']\<rparr>,
    \<lparr>num = 9, label = ''FIG. 9'', title = ''Creative QC Parameter Taxonomy'',
      fig_keywords = [''creative qc'', ''parameter'', ''33'', ''taxonomy'', ''assessment'', ''quality control'', ''seven categories'', ''qc parameter'', ''quality assessment'', ''parameter framework'', ''33 parameters'']\<rparr>,
    \<lparr>num = 10, label = ''FIG. 10'', title = ''Complete SPI Workflow'',
      fig_keywords = [''complete workflow'', ''full workflow'', ''spi workflow'', ''data flow diagram'', ''full system'', ''ai provider'', ''parallel analysis'', ''result delivery'', ''complete spi'']\<rparr>,
    \<lparr>num = 11, label = ''FIG. 11'', title = ''Multi-Modal Fusion Architecture'',
      fig_keywords = [''multi-modal'', ''fusion'', ''attention'', ''cross-modal'', ''multimodal'', ''combining'', ''attention-based'', ''unified fingerprint'', ''modal fusion'', ''cross-modal attention'']\<rparr>,
    \<lparr>num = 12, label = ''FIG. 12'', title = ''Database Schema'',
      fig_keywords = [''database'', ''schema'', ''postgresql'', ''pgvector'', ''storage'', ''data model'', ''vector index'', ''database schema'', ''data storage'', ''similarity index'']\<rparr>,
    \<lparr>num = 13, label = ''FIG. 13'', title = ''API Integration Layer'',
      fig_keywords = [''api'', ''endpoint'', ''webhook'', ''rest'', ''integration'', ''interface'', ''api layer'', ''rest api'', ''external integration'', ''api specification'']\<rparr>,
    \<lparr>num = 14, label = ''FIG. 14'', title = ''Deployment Architecture'',
      fig_keywords = [''deployment'', ''cloud'', ''kubernetes'', ''scaling'', ''infrastructure'', ''hosting'', ''cloud-native'', ''auto-scaling'', ''load balancing'', ''deployment topology'']\<rparr>,
    \<lparr>num = 15, label = ''FIG. 15'', title = ''Security Framework'',
      fig_keywords = [''security'', ''anti-abuse'', ''adversarial'', ''rate limit'', ''access control'', ''authentication'', ''security framework'', ''rbac'', ''security layer'', ''abuse prevention'']\<rparr>,
    \<lparr>num = 16, label = ''FIG. 16'', title = ''Copyright Automation Engine'',
      fig_keywords = [''copyright'', ''rights'', ''ledger'', ''licensing'', ''royalty'', ''drm'', ''rights ledger'', ''smart contract'', ''content identification'', ''royalty distribution'']\<rparr>,
    \<lparr>num = 17, label = ''FIG. 17'', title = ''Drift Detection and Calibration'',
      fig_keywords = [''drift'', ''calibration'', ''monitoring'', ''baseline'', ''recalibration'', ''model drift'', ''drift detection'', ''drift quantification'', ''alert threshold'', ''model monitoring'', ''drift graphics'', ''semantic drift'']\<rparr>
  ]"

section \<open>The context resolver\<close>

text \<open>The body of the inner loop of \<open>get_figure_number_from_context\<close>: the state is
  \<open>(best_fig, best_score)\<close>.\<close>

definition keyword_step :: "string \<Rightarrow> nat \<Rightarrow> nat \<times> nat \<Rightarrow> string \<Rightarrow> nat \<times> nat" where
  "keyword_step context_lower fig_num best keyword =
     (if contains context_lower keyword then
        let score = length keyword * 2;
            score = (if contains ('' '' @ context_lower @ '' '') ('' '' @ keyword @ '' '')
                     then score + 5 else score)
        in if score > snd best then (fig_num, score) else best
      else best)"

definition figure_step :: "string \<Rightarrow> nat \<times> nat \<Rightarrow> figure \<Rightarrow> nat \<times> nat" where
  "figure_step context_lower best fig = foldl (keyword_step context_lower (num fig)) best (fig_keywords fig)"

definition get_figure_number_from_context :: "string \<Rightarrow> nat" where
  "get_figure_number_from_context context_text =
     (let context_lower = lower context_text
      in fst (foldl (figure_step context_lower) (1, 0) FIGURES))"

section \<open>The reference repair engine\<close>

text \<open>\<open>fix_all_figure_references\<close>, stage by stage. Every pattern is written beside its
  Python source. A replacement template such as \<open>r'FIG. \1'\<close> is the function
  \<open>\<lambda>m. ''FIG. '' @ group m 1\<close>. The callbacks of the source read the variable \<open>text\<close> of
  the enclosing function, which during a call of \<open>re.sub\<close> still holds the text passed to
  that call: here they take it as their first argument.\<close>

definition fig_tmpl :: "pymatch \<Rightarrow> string" where
  "fig_tmpl m = ''FIG. '' @ group m 1"

text \<open>Step 0: \<open>FIG\.?\s+FIG\.?\s*(\d+)\<close> and \<open>FIG\s+FIG\s+\<close>.\<close>

definition pat_dup_num :: regex where
  "pat_dup_num = seq [Lit ''FIG'', Opt (Lit ''.''), Plus Space, Lit ''FIG'', Opt (Lit ''.''),
                      Star Space, Grp 1 (Plus Digit)]"

definition pat_dup_sp :: regex where
  "pat_dup_sp = seq [Lit ''FIG'', Plus Space, Lit ''FIG'', Plus Space]"

text \<open>Step 1: \<open>FIG\.?\s*(\d{1,2})(?:\s*\.\s*\d+)+\.?\<close>.\<close>

definition pat_multi :: regex where
  "pat_multi = seq [Lit ''FIG'', Opt (Lit ''.''), Star Space, Grp 1 (Rep Digit 1 (Some 2)),
                    Plus (seq [Star Space, Lit ''.'', Star Space, Plus Digit]), Opt (Lit ''.'')]"

text \<open>Step 2: \<open>FIG\.?\s*(\d{1,2})\s*\.\s*\d+(?!\d)\<close>.\<close>

definition pat_two :: regex where
  "pat_two = seq [Lit ''FIG'', Opt (Lit ''.''), Star Space, Grp 1 (Rep Digit 1 (Some 2)),
                  Star Space, Lit ''.'', Star Space, Plus Digit, NotAhead Digit]"

text \<open>Step 3: \<open>context_replace\<close> and \<open>empty_patterns\<close>. The three branches of the source
  return the same string. The match is the last parameter here, so that
  \<open>context_replace text grp\<close> is the \<open>replacer\<close> that \<open>make_replacer(grp)\<close> builds.\<close>

definition context_replace :: "string \<Rightarrow> nat \<Rightarrow> pymatch \<Rightarrow> string" where
  "context_replace text prefix_group m =
     (let prefix = group m prefix_group;
          start = mstart m - 400;
          end = min (length text) (mend m + 100);
          context = slice text start end;
          fig_num = get_figure_number_from_context context;
          prefix_clean = rstrip prefix
      in if endswith prefix_clean '' in'' then prefix_clean @ '' FIG. '' @ str_of_nat fig_num @ ''.''
         else if endswith prefix_clean '' to'' then prefix_clean @ '' FIG. '' @ str_of_nat fig_num @ ''.''
         else prefix_clean @ '' FIG. '' @ str_of_nat fig_num @ ''.'')"

text \<open>\<open>((?:as\s+)?WORD\s+in)\<close>, the group shared by many patterns below.\<close>

definition as_word_in :: "string \<Rightarrow> regex" where
  "as_word_in w = Grp 1 (seq [Opt (seq [Lit ''as'', Plus Space]), Lit w, Plus Space, Lit ''in''])"

definition empty_patterns :: "(regex \<times> nat) list" where
  \<open>empty_patterns = [
     \<comment> \<open>\<open>((?:as\s+)?shown\s+in)\s*\.\<close>\<close>
     (seq [as_word_in ''shown'', Star Space, Lit ''.''], 1),
     \<comment> \<open>\<open>((?:as\s+)?illustrated\s+in)\s*\.\<close>\<close>
     (seq [as_word_in ''illustrated'', Star Space, Lit ''.''], 1),
     \<comment> \<open>\<open>((?:as\s+)?depicted\s+in)\s*\.\<close>\<close>
     (seq [as_word_in ''depicted'', Star Space, Lit ''.''], 1),
     \<comment> \<open>\<open>((?:as\s+)?displayed\s+in)\s*\.\<close>\<close>
     (seq [as_word_in ''displayed'', Star Space, Lit ''.''], 1),
     \<comment> \<open>\<open>((?:as\s+)?presented\s+in)\s*\.\<close>\<close>
     (seq [as_word_in ''presented'', Star Space, Lit ''.''], 1),
     \<comment> \<open>\<open>(represented\s+(?:visually\s+)?in)\s*\.\<close>\<close>
     (seq [Grp 1 (seq [Lit ''represented'', Plus Space, Opt (seq [Lit ''visually'', Plus Space]),
                       Lit ''in'']), Star Space, Lit ''.''], 1),
     \<comment> \<open>\<open>((?:These\s+are\s+)?(?:represented|shown)\s+visually\s+in)\s*\.\<close>\<close>
     (seq [Grp 1 (seq [Opt (seq [Lit ''These'', Plus Space, Lit ''are'', Plus Space]),
                       Alt (Lit ''represented'') (Lit ''shown''), Plus Space, Lit ''visually'',
                       Plus Space, Lit ''in'']), Star Space, Lit ''.''], 1),
     \<comment> \<open>\<open>((?:A\s+)?visual\s+reference\s+(?:for\s+\w+\s+)?is\s+shown\s+in)\s*\.\<close>\<close>
     (seq [Grp 1 (seq [Opt (seq [Lit ''A'', Plus Space]), Lit ''visual'', Plus Space,
                       Lit ''reference'', Plus Space,
                       Opt (seq [Lit ''for'', Plus Space, Plus Word, Plus Space]),
                       Lit ''is'', Plus Space, Lit ''shown'', Plus Space, Lit ''in'']),
           Star Space, Lit ''.''], 1),
     \<comment> \<open>\<open>((?:See|Refer\s+to))\s*\.\<close>\<close>
     (seq [Grp 1 (Alt (Lit ''See'') (seq [Lit ''Refer'', Plus Space, Lit ''to''])),
           Star Space, Lit ''.''], 1),
     \<comment> \<open>\<open>(in\s+FIG\.?)\s*\.\<close>\<close>
     (seq [Grp 1 (seq [Lit ''in'', Plus Space, Lit ''FIG'', Opt (Lit ''.'')]),
           Star Space, Lit ''.''], 1)
   ]\<close>

definition fix_empty :: "string \<Rightarrow> string" where
  "fix_empty text0 =
     foldl (\<lambda>text (pattern, grp). re_sub IGNORECASE pattern (context_replace text grp) text)
       text0 empty_patterns"

text \<open>Step 4: \<open>FIG\.?\s*(\d{1,2})\s+and\s*\.\<close> and \<open>fix_and_empty\<close>.\<close>

definition pat_and_empty :: regex where
  "pat_and_empty = seq [Lit ''FIG'', Opt (Lit ''.''), Star Space, Grp 1 (Rep Digit 1 (Some 2)),
                        Plus Space, Lit ''and'', Star Space, Lit ''.'']"

definition fix_and_empty :: "string \<Rightarrow> pymatch \<Rightarrow> string" where
  "fix_and_empty text m =
     (let first_fig = int_of_digits (group m 1);
          start = mstart m - 300;
          context = slice text start (mend m);
          second_fig = get_figure_number_from_context context;
          second_fig = (if second_fig = first_fig then min (first_fig + 1) 17 else second_fig)
      in ''FIG. '' @ str_of_nat first_fig @ '' and FIG. '' @ str_of_nat second_fig @ ''.'')"

text \<open>Step 5: \<open>Figure\s+(\d{1,2})\<close>.\<close>

definition pat_figure :: regex where
  "pat_figure = seq [Lit ''Figure'', Plus Space, Grp 1 (Rep Digit 1 (Some 2))]"

text \<open>Step 6: \<open>FIG\s+(\d)\<close>, \<open>FIG\.(\d)\<close> and \<open>FIG\.\s{2,}(\d)\<close>, case-sensitive.\<close>

definition pat_sp_a :: regex where
  "pat_sp_a = seq [Lit ''FIG'', Plus Space, Grp 1 Digit]"

definition pat_sp_b :: regex where
  "pat_sp_b = seq [Lit ''FIG.'', Grp 1 Digit]"

definition pat_sp_c :: regex where
  "pat_sp_c = seq [Lit ''FIG.'', Rep Space 2 None, Grp 1 Digit]"

text \<open>Step 7: \<open>FIG\.\s*\.(?!\d)\<close> and \<open>fix_standalone_fig\<close>.\<close>

definition pat_standalone :: regex where
  "pat_standalone = seq [Lit ''FIG.'', Star Space, Lit ''.'', NotAhead Digit]"

definition fix_standalone_fig :: "string \<Rightarrow> pymatch \<Rightarrow> string" where
  "fix_standalone_fig text m =
     (let start = mstart m - 300;
          context = slice text start (mstart m);
          fig_num = get_figure_number_from_context context
      in ''FIG. '' @ str_of_nat fig_num @ ''.'')"

text \<open>Step 8: \<open>FIG\.\s*(\d+)\<close> and \<open>validate_fig\<close>. The number is a string of digits, so
  it is never negative: \<open>num < 1\<close> is \<open>num = 0\<close>. The group \<open>\d+\<close> has no bound, so
  \<open>int\<close> can raise here, and the exception leaves \<open>fix_all_figure_references\<close>.\<close>

definition pat_validate :: regex where
  "pat_validate = seq [Lit ''FIG.'', Star Space, Grp 1 (Plus Digit)]"

definition validate_num :: "nat \<Rightarrow> nat" where
  "validate_num v = (if v < 1 then 1 else if v > 17 then ((v - 1) mod 17) + 1 else v)"

definition validate_fig :: "pymatch \<Rightarrow> error + string" where
  "validate_fig m =
     (case py_int (group m 1) of
        Inl e \<Rightarrow> Inl e
      | Inr v \<Rightarrow> Inr (''FIG. '' @ str_of_nat (validate_num v)))"

text \<open>Step 9: \<open>FIG\.?\s+FIG\.?\s*(\d+)\<close> again, and \<open>FIG\s+FIG\<close>.\<close>

definition pat_dup_bare :: regex where
  "pat_dup_bare = seq [Lit ''FIG'', Plus Space, Lit ''FIG'']"

text \<open>Step 10: \<open>FIG\s*\.\s*(\d+)\<close>, case-sensitive.\<close>

definition pat_canon :: regex where
  "pat_canon = seq [Lit ''FIG'', Star Space, Lit ''.'', Star Space, Grp 1 (Plus Digit)]"

text \<open>Step 11: \<open>fix_implicit_reference\<close> and \<open>implicit_patterns\<close>. \<open>m.lastindex\<close> is the
  number of the last group that took part; both groups always do.\<close>

definition lastindex :: "pymatch \<Rightarrow> nat" where
  "lastindex m = foldl max 0 (map fst (mgroups m))"

definition fix_implicit_reference :: "string \<Rightarrow> pymatch \<Rightarrow> string" where
  "fix_implicit_reference text m =
     (let full_match = group m 0;
          phrase = group m 1;
          following = (if lastindex m \<ge> 2 then group m 2 else [])
      in if contains (take 20 (upper following)) ''FIG'' then full_match
         else
           let start = mstart m - 500;
               end = min (length text) (mend m + 200);
               context = slice text start end;
               fig_num = get_figure_number_from_context context
           in phrase @ '' FIG. '' @ str_of_nat fig_num @ '', '' @ lstrip following)"

definition implicit_patterns :: "regex list" where
  \<open>implicit_patterns = [
     \<comment> \<open>\<open>((?:as\s+)?illustrated\s+in)\s+(the\s+\w+)\<close>\<close>
     seq [as_word_in ''illustrated'', Plus Space, Grp 2 (seq [Lit ''the'', Plus Space, Plus Word])],
     \<comment> \<open>\<open>((?:as\s+)?shown\s+in)\s+(the\s+\w+)\<close>\<close>
     seq [as_word_in ''shown'', Plus Space, Grp 2 (seq [Lit ''the'', Plus Space, Plus Word])],
     \<comment> \<open>\<open>((?:as\s+)?depicted\s+in)\s+(the\s+\w+)\<close>\<close>
     seq [as_word_in ''depicted'', Plus Space, Grp 2 (seq [Lit ''the'', Plus Space, Plus Word])],
     \<comment> \<open>\<open>((?:as\s+)?displayed\s+in)\s+(the\s+\w+)\<close>\<close>
     seq [as_word_in ''displayed'', Plus Space, Grp 2 (seq [Lit ''the'', Plus Space, Plus Word])],
     \<comment> \<open>\<open>(represented\s+visually\s+in)\s+(the\s+\w+)\<close>\<close>
     seq [Grp 1 (seq [Lit ''represented'', Plus Space, Lit ''visually'', Plus Space, Lit ''in'']),
          Plus Space, Grp 2 (seq [Lit ''the'', Plus Space, Plus Word])],
     \<comment> \<open>\<open>((?:as\s+)?illustrated\s+in)\s+([a-z]+\s+\w+)\<close>\<close>
     seq [as_word_in ''illustrated'', Plus Space,
          Grp 2 (seq [Plus (Set [Rng CHR ''a'' CHR ''z'']), Plus Space, Plus Word])],
     \<comment> \<open>\<open>((?:as\s+)?shown\s+in)\s+([a-z]+\s+\w+)\<close>\<close>
     seq [as_word_in ''shown'', Plus Space,
          Grp 2 (seq [Plus (Set [Rng CHR ''a'' CHR ''z'']), Plus Space, Plus Word])]
   ]\<close>

definition fix_implicit :: "string \<Rightarrow> string" where
  "fix_implicit text0 =
     foldl (\<lambda>text pattern. re_sub IGNORECASE pattern (fix_implicit_reference text) text)
       text0 implicit_patterns"

text \<open>Step 12: \<open>fix_trailing_implicit\<close> and \<open>trailing_patterns\<close>.\<close>

definition fix_trailing_implicit :: "string \<Rightarrow> pymatch \<Rightarrow> string" where
  "fix_trailing_implicit text m =
     (let phrase = group m 1;
          punct = group m 2;
          start = mstart m - 500;
          context = slice text start (mend m);
          fig_num = get_figure_number_from_context context
      in phrase @ '' FIG. '' @ str_of_nat fig_num @ punct)"

definition trailing_patterns :: "regex list" where
  \<open>trailing_patterns = [
     \<comment> \<open>\<open>((?:as\s+)?illustrated\s+in)\s*([,\.])\<close>\<close>
     seq [as_word_in ''illustrated'', Star Space, Grp 2 (Set [Ch CHR '','', Ch CHR ''.''])],
     \<comment> \<open>\<open>((?:as\s+)?shown\s+in)\s*([,\.])\<close>\<close>
     seq [as_word_in ''shown'', Star Space, Grp 2 (Set [Ch CHR '','', Ch CHR ''.''])],
     \<comment> \<open>\<open>((?:as\s+)?depicted\s+in)\s*([,\.])\<close>\<close>
     seq [as_word_in ''depicted'', Star Space, Grp 2 (Set [Ch CHR '','', Ch CHR ''.''])],
     \<comment> \<open>\<open>(represented\s+visually\s+in)\s*([,\.])\<close>\<close>
     seq [Grp 1 (seq [Lit ''represented'', Plus Space, Lit ''visually'', Plus Space, Lit ''in'']),
          Star Space, Grp 2 (Set [Ch CHR '','', Ch CHR ''.''])]
   ]\<close>

definition fix_trailing :: "string \<Rightarrow> string" where
  "fix_trailing text0 =
     foldl (\<lambda>text pattern. re_sub IGNORECASE pattern (fix_trailing_implicit text) text)
       text0 trailing_patterns"

text \<open>Step 13: \<open>in\s+FIG\.(?!\s*\d)\<close> and \<open>fix_fig_without_number\<close>.\<close>

definition pat_in_fig :: regex where
  "pat_in_fig = seq [Lit ''in'', Plus Space, Lit ''FIG.'', NotAhead (seq [Star Space, Digit])]"

definition fix_fig_without_number :: "string \<Rightarrow> pymatch \<Rightarrow> string" where
  "fix_fig_without_number text m =
     (let start = mstart m - 400;
          context = slice text start (mend m);
          fig_num = get_figure_number_from_context context
      in ''in FIG. '' @ str_of_nat fig_num)"

text \<open>Step 14: \<open>FIG\.\s+(\d+)\s*,\s*,\<close>, \<open>FIG\.\s+(\d+)\s*\.\s*\.\<close> and \<open>\s{2,}\<close>,
  case-sensitive.\<close>

definition pat_comma2 :: regex where
  "pat_comma2 = seq [Lit ''FIG.'', Plus Space, Grp 1 (Plus Digit), Star Space, Lit '','',
                     Star Space, Lit '','']"

definition pat_period2 :: regex where
  "pat_period2 = seq [Lit ''FIG.'', Plus Space, Grp 1 (Plus Digit), Star Space, Lit ''.'',
                      Star Space, Lit ''.'']"

definition pat_spaces :: regex where
  "pat_spaces = Rep Space 2 None"

definition collapse_spaces :: "string \<Rightarrow> string" where
  "collapse_spaces text = re_sub NOFLAGS pat_spaces (\<lambda>m. '' '') text"

text \<open>The source threads \<open>text\<close> through its statements, each of the form
  \<open>text = re.sub(pattern, repl, text)\<close>. \<open>run_stages\<close> applies a list of such stages from
  left to right; \<open>sub_with_text\<close> is a stage whose callback reads \<open>text\<close>.\<close>

fun run_stages :: "(string \<Rightarrow> string) list \<Rightarrow> string \<Rightarrow> string" where
  "run_stages [] text = text"
| "run_stages (stage # stages) text = run_stages stages (stage text)"

definition sub_with_text :: "flags \<Rightarrow> regex \<Rightarrow> (string \<Rightarrow> pymatch \<Rightarrow> string) \<Rightarrow> string \<Rightarrow> string" where
  "sub_with_text f r callback text = re_sub f r (callback text) text"

definition comma_tmpl :: "pymatch \<Rightarrow> string" where
  "comma_tmpl m = ''FIG. '' @ group m 1 @ '',''"

definition period_tmpl :: "pymatch \<Rightarrow> string" where
  "period_tmpl m = ''FIG. '' @ group m 1 @ ''.''"

text \<open>Steps 0 to 7; step 8, which can raise; steps 9 and 10; steps 11 to 13; and
  step 14, whose last statement collapses white space.\<close>

definition stages_0_7 :: "(string \<Rightarrow> string) list" where
  "stages_0_7 = [
     re_sub IGNORECASE pat_dup_num fig_tmpl,
     re_sub IGNORECASE pat_dup_sp (\<lambda>m. ''FIG. ''),
     re_sub IGNORECASE pat_multi fig_tmpl,
     re_sub IGNORECASE pat_two fig_tmpl,
     fix_empty,
     sub_with_text IGNORECASE pat_and_empty fix_and_empty,
     re_sub IGNORECASE pat_figure fig_tmpl,
     re_sub NOFLAGS pat_sp_a fig_tmpl,
     re_sub NOFLAGS pat_sp_b fig_tmpl,
     re_sub NOFLAGS pat_sp_c fig_tmpl,
     sub_with_text IGNORECASE pat_standalone fix_standalone_fig
   ]"

definition validate_stage :: "string \<Rightarrow> error + string" where
  "validate_stage text = re_sub_try IGNORECASE pat_validate validate_fig text"

definition stages_9_10 :: "(string \<Rightarrow> string) list" where
  "stages_9_10 = [
     re_sub IGNORECASE pat_dup_num fig_tmpl,
     re_sub IGNORECASE pat_dup_bare (\<lambda>m. ''FIG''),
     re_sub NOFLAGS pat_canon fig_tmpl
   ]"

definition stages_11_13 :: "(string \<Rightarrow> string) list" where
  "stages_11_13 = [
     fix_implicit,
     fix_trailing,
     sub_with_text IGNORECASE pat_in_fig fix_fig_without_number
   ]"

definition stages_14 :: "(string \<Rightarrow> string) list" where
  "stages_14 = [
     re_sub NOFLAGS pat_comma2 comma_tmpl,
     re_sub NOFLAGS pat_period2 period_tmpl,
     collapse_spaces
   ]"

definition fix_all_figure_references :: "string \<Rightarrow> error + string" where
  "fix_all_figure_references text =
     (case validate_stage (run_stages stages_0_7 text) of
        Inl e \<Rightarrow> Inl e
      | Inr validated \<Rightarrow> Inr (run_stages (stages_9_10 @ stages_11_13 @ stages_14) validated))"

section \<open>The text normalizer\<close>











section \<open>The section segmenter\<close>

text \<open>\<open>SECTION_MARKERS\<close>: the pattern of a marker is \<open>^\(?\d*\)?\s*\<close> followed by the
  marker's own pattern, as the format string of \<open>parse_sections\<close> builds it. For the last
  marker the alternation \<open>PCT|WIPO|BOILERPLATE\<close> is spliced in without brackets, so the
  prefix belongs to its first branch only.\<close>

definition heading_prefix :: "regex list" where
  "heading_prefix = [Bos, Opt (Lit ''(''), Star Digit, Opt (Lit '')''), Star Space]"

definition SECTION_MARKERS :: "(regex \<times> string) list" where
  "SECTION_MARKERS = [
     (seq (heading_prefix @ [Lit ''TITLE'']), ''title''),
     (seq (heading_prefix @ [Lit ''ABSTRACT'']), ''abstract''),
     (seq (heading_prefix @ [Lit ''FIELD'']), ''field''),
     (seq (heading_prefix @ [Lit ''BACKGROUND'']), ''background''),
     (seq (heading_prefix @ [Lit ''SUMMARY'']), ''summary''),
     (seq (heading_prefix @ [Lit ''BRIEF'', Star Space, Lit ''DESC'']), ''brief''),
     (seq (heading_prefix @ [Lit ''DETAILED'', Star Space, Lit ''DESC'']), ''detailed''),
     (seq (heading_prefix @ [Lit ''ENABLEMENT'']), ''enablement''),
     (seq (heading_prefix @ [Lit ''SECURITY'']), ''security''),
     (seq (heading_prefix @ [Lit ''COPYRIGHT'']), ''copyright''),
     (seq (heading_prefix @ [Lit ''ALTERNATIVE'']), ''alternatives''),
     (seq (heading_prefix @ [Lit ''SECONDARY'']), ''secondary''),
     (seq (heading_prefix @ [Lit ''CLAIM'']), ''claims''),
     (seq (heading_prefix @ [Lit ''WHAT'', Star Space, Lit ''IS'', Star Space, Lit ''CLAIMED'']), ''claims''),
     (seq (heading_prefix @ [Lit ''INDUSTRIAL'']), ''industrial''),
     (seq (heading_prefix @ [Lit ''BEST'', Star Space, Lit ''MODE'']), ''best_mode''),
     (alt [seq (heading_prefix @ [Lit ''PCT'']), Lit ''WIPO'', Lit ''BOILERPLATE''], ''boilerplate'')
   ]"

text \<open>\<open>text.split('\n')\<close> and \<open>'\n'.join(lines)\<close>.\<close>

fun split_lines :: "string \<Rightarrow> string list" where
  "split_lines [] = [[]]"
| "split_lines (c # cs) =
     (if c = CHR 0x0A then [] # split_lines cs
      else (case split_lines cs of [] \<Rightarrow> [[c]] | l # ls \<Rightarrow> (c # l) # ls))"

fun join_lines :: "string list \<Rightarrow> string" where
  "join_lines [] = []"
| "join_lines [l] = l"
| "join_lines (l # ls) = l @ [CHR 0x0A] @ join_lines ls"

text \<open>The inner loop over \<open>SECTION_MARKERS\<close>: the key of the first marker that matches, with
  \<open>break\<close>.\<close>

fun find_marker :: "(regex \<times> string) list \<Rightarrow> string \<Rightarrow> string \<Rightarrow> string option" where
  "find_marker [] line upper_line = None"
| "find_marker ((pattern, key) # markers) line upper_line =
     (if re_match NOFLAGS pattern upper_line \<noteq> None \<and> length (strip line) < 120 then Some key
      else find_marker markers line upper_line)"

text \<open>The dictionary \<open>sections\<close> is an association list in insertion order.\<close>

type_synonym sections = "(string \<times> string) list"

fun dict_set :: "sections \<Rightarrow> string \<Rightarrow> string \<Rightarrow> sections" where
  "dict_set [] k v = [(k, v)]"
| "dict_set ((k', v') # d) k v = (if k' = k then (k, v) # d else (k', v') # dict_set d k v)"

definition dict_get :: "sections \<Rightarrow> string \<Rightarrow> string \<Rightarrow> string" where
  "dict_get d k dflt = (case map_of d k of None \<Rightarrow> dflt | Some v \<Rightarrow> v)"

definition has_key :: "sections \<Rightarrow> string \<Rightarrow> bool" where
  "has_key d k = (map_of d k \<noteq> None)"

text \<open>The flush at a heading line, the body of \<open>if found:\<close> up to the assignment of
  \<open>current\<close>.\<close>

definition flush_heading :: "sections \<Rightarrow> string \<Rightarrow> string list \<Rightarrow> sections" where
  "flush_heading sections current content =
     (if content \<noteq> [] then
        let txt = strip (join_lines content)
        in if txt \<noteq> [] \<and> (\<not> has_key sections current \<or> current = ''claims'')
           then dict_set sections current
                  (dict_get sections current [] @
                   (if has_key sections current then [CHR 0x0A, CHR 0x0A] else []) @ txt)
           else sections
      else sections)"

text \<open>The flush after the loop.\<close>

definition flush_final :: "sections \<Rightarrow> string \<Rightarrow> string list \<Rightarrow> sections" where
  "flush_final sections current content =
     (if content \<noteq> [] then
        let txt = strip (join_lines content)
        in if txt \<noteq> [] \<and> \<not> has_key sections current
           then dict_set sections current txt
           else sections
      else sections)"

text \<open>The loop over the lines; its state is \<open>(sections, current, content)\<close>.\<close>

definition line_step :: "sections \<times> string \<times> string list \<Rightarrow> string \<Rightarrow> sections \<times> string \<times> string list" where
  "line_step state line =
     (case state of (sections, current, content) \<Rightarrow>
        (case find_marker SECTION_MARKERS line (upper (strip line)) of
           Some found \<Rightarrow> (flush_heading sections current content, found, [])
         | None \<Rightarrow> (sections, current, content @ [line])))"

definition parse_sections :: "string \<Rightarrow> sections" where
  "parse_sections text =
     (case foldl line_step ([], ''preamble'', []) (split_lines text) of
        (sections, current, content) \<Rightarrow> flush_final sections current content)"

section \<open>The claims extractor\<close>

record claim =
  number :: nat
  claim_text :: string
  is_dependent :: bool

text \<open>\<open>(?:CLAIMS?|WHAT\s*IS\s*CLAIMED)[^\n]*\n(.*)\<close>, with \<open>re.I | re.S\<close>.\<close>

definition pat_claims_heading :: regex where
  "pat_claims_heading =
     seq [Alt (seq [Lit ''CLAIM'', Opt (Lit ''S'')])
              (seq [Lit ''WHAT'', Star Space, Lit ''IS'', Star Space, Lit ''CLAIMED'']),
          Star (NSet [Ch (CHR 0x0A)]), Lit [CHR 0x0A], Grp 1 (Star Dot)]"

text \<open>The separator set \<open>[\.\s\-:]\<close> of the claim pattern; the source's set also holds an em
  dash, a code point above 255.\<close>

definition claim_sep :: regex where
  "claim_sep = Plus (Set [Ch CHR ''.'', WS, Ch CHR ''-'', Ch CHR '':''])"

text \<open>\<open>(?:^|\n)\s*(?:CLAIM\s*)?(\d{1,2})[\.\s\-:]+([A-Z].*?)\<close> followed by the lookahead
  \<open>(?=\n\s*(?:CLAIM\s*)?\d{1,2}[\.\s\-:]+[A-Z]|\n\s*\(\d+\)\s*[A-Z]|\Z)\<close>, with
  \<open>re.S | re.I\<close>.\<close>

definition pat_claim :: regex where
  "pat_claim =
     seq [Alt Bos (Lit [CHR 0x0A]), Star Space, Opt (seq [Lit ''CLAIM'', Star Space]),
          Grp 1 (Rep Digit 1 (Some 2)), claim_sep,
          Grp 2 (seq [Set [Rng CHR ''A'' CHR ''Z''], RepLazy Dot 0 None]),
          Ahead (alt [
            seq [Lit [CHR 0x0A], Star Space, Opt (seq [Lit ''CLAIM'', Star Space]),
                 Rep Digit 1 (Some 2), claim_sep, Set [Rng CHR ''A'' CHR ''Z'']],
            seq [Lit [CHR 0x0A], Star Space, Lit ''('', Plus Digit, Lit '')'', Star Space,
                 Set [Rng CHR ''A'' CHR ''Z'']],
            Eos])]"

text \<open>\<open>\s+\<close>, \<open>\s*\(\d+\)\s*[A-Z][A-Z\s]+$\<close> (case-sensitive) and
  \<open>\s*(INDUSTRIAL|BEST\s*MODE|PCT|WIPO).*$\<close> (with \<open>re.I\<close>).\<close>

definition pat_ws :: regex where
  "pat_ws = Plus Space"

definition pat_trailing_header :: regex where
  "pat_trailing_header =
     seq [Star Space, Lit ''('', Plus Digit, Lit '')'', Star Space, Set [Rng CHR ''A'' CHR ''Z''],
          Plus (Set [Rng CHR ''A'' CHR ''Z'', WS]), Dollar]"

definition pat_trailing_section :: regex where
  "pat_trailing_section =
     seq [Star Space,
          Grp 1 (alt [Lit ''INDUSTRIAL'', seq [Lit ''BEST'', Star Space, Lit ''MODE''], Lit ''PCT'',
                      Lit ''WIPO'']),
          Star Dot, Dollar]"

text \<open>The text of a candidate: \<open>re.sub(r'\s+', ' ', m.group(2)).strip()\<close>, then the two
  substitutions that remove trailing section headers.\<close>

definition collapse_ws :: "string \<Rightarrow> string" where
  "collapse_ws raw = strip (re_sub NOFLAGS pat_ws (\<lambda>m. '' '') raw)"

definition strip_headers :: "string \<Rightarrow> string" where
  "strip_headers txt =
     re_sub IGNORECASE pat_trailing_section (\<lambda>m. [])
       (re_sub NOFLAGS pat_trailing_header (\<lambda>m. []) txt)"

definition claim_body :: "string \<Rightarrow> string" where
  "claim_body raw = strip_headers (collapse_ws raw)"

text \<open>\<open>(?:claim\s+\d+|according\s+to\s+claim|as\s+(?:claimed|recited)\s+in\s+claim|of\s+claim\s+\d+)\<close>,
  with \<open>re.I\<close>.\<close>

definition pat_dependent :: regex where
  "pat_dependent =
     alt [seq [Lit ''claim'', Plus Space, Plus Digit],
          seq [Lit ''according'', Plus Space, Lit ''to'', Plus Space, Lit ''claim''],
          seq [Lit ''as'', Plus Space, Alt (Lit ''claimed'') (Lit ''recited''), Plus Space,
               Lit ''in'', Plus Space, Lit ''claim''],
          seq [Lit ''of'', Plus Space, Lit ''claim'', Plus Space, Plus Digit]]"

text \<open>The body of the loop over the matches: the state is \<open>(claims, seen)\<close>. \<open>admit\<close> is
  the \<open>if\<close> statement of the body, on the number \<open>num\<close> and the text \<open>txt\<close> computed before
  it.\<close>

definition is_dep :: "string \<Rightarrow> bool" where
  "is_dep txt = (re_search IGNORECASE pat_dependent txt \<noteq> None)"

definition admit :: "claim list \<times> nat set \<Rightarrow> nat \<Rightarrow> string \<Rightarrow> claim list \<times> nat set" where
  "admit state n txt =
     (case state of (claims, seen) \<Rightarrow>
        if n \<notin> seen \<and> n \<le> 65 \<and> length txt \<ge> 20
        then (claims @ [\<lparr>number = n, claim_text = txt, is_dependent = is_dep txt\<rparr>], insert n seen)
        else (claims, seen))"

definition claim_step :: "claim list \<times> nat set \<Rightarrow> pymatch \<Rightarrow> claim list \<times> nat set" where
  "claim_step state m = admit state (int_of_digits (group m 1)) (claim_body (group m 2))"

definition claims_scope :: "string \<Rightarrow> string" where
  "claims_scope text =
     (case re_search IGNORECASE_DOTALL pat_claims_heading text of
        Some m \<Rightarrow> group m 1
      | None \<Rightarrow> text)"

definition extract_claims :: "string \<Rightarrow> claim list" where
  "extract_claims text =
     sort_key number
       (fst (foldl claim_step ([], {}) (finditer IGNORECASE_DOTALL pat_claim (claims_scope text))))"

section \<open>Notions of the specification\<close>

text \<open>The numbers of the markers \<open>FIG. n\<close> of a text.\<close>

definition pat_marker :: regex where
  "pat_marker = seq [Lit ''FIG. '', Grp 1 (Plus Digit)]"

definition marker_numbers :: "string \<Rightarrow> nat list" where
  "marker_numbers text = map (\<lambda>m. int_of_digits (group m 1)) (finditer NOFLAGS pat_marker text)"

text \<open>A dangling reference: a trigger phrase, in any case, with one of the characters
  \<open>puncts\<close> right behind it.\<close>

definition triggers :: "string list" where
  "triggers = [''shown in'', ''illustrated in'', ''depicted in'']"

definition ascii_punctuation :: string where
  "ascii_punctuation = ''!#$%&()*+,-./:;<=>?@[]^_{|}~'' @ [CHR 0x22, CHR 0x27, CHR 0x5C, CHR 0x60]"

definition dangling :: "string \<Rightarrow> string \<Rightarrow> bool" where
  "dangling puncts text =
     list_ex (\<lambda>t. list_ex (\<lambda>c. contains (lower text) (t @ [c])) puncts) triggers"

text \<open>The resolver in the words of the specification. A keyword that occurs in the
  (lower-case) window \<open>w\<close> scores twice its length, and 5 more when an occurrence is
  bounded: the character before it, if there is one, and the character behind it, if
  there is one, are in the class \<open>bnd\<close>. An entry scores the maximum of its keywords, and
  the resolver returns the first entry of the catalog that reaches the maximum over all
  entries, or 1 when no keyword occurs.\<close>

definition follow_ok :: "(char \<Rightarrow> bool) \<Rightarrow> string \<Rightarrow> bool" where
  "follow_ok bnd s = (case s of [] \<Rightarrow> True | c # _ \<Rightarrow> bnd c)"

fun bounded_scan :: "(char \<Rightarrow> bool) \<Rightarrow> bool \<Rightarrow> string \<Rightarrow> string \<Rightarrow> bool" where
  "bounded_scan bnd ok [] k = (ok \<and> k = [])"
| "bounded_scan bnd ok (c # cs) k =
     ((ok \<and> startswith (c # cs) k \<and> follow_ok bnd (drop (length k) (c # cs)))
      \<or> bounded_scan bnd (bnd c) cs k)"

definition bounded_by :: "(char \<Rightarrow> bool) \<Rightarrow> string \<Rightarrow> string \<Rightarrow> bool" where
  "bounded_by bnd w k = bounded_scan bnd True w k"

definition keyword_score :: "(char \<Rightarrow> bool) \<Rightarrow> string \<Rightarrow> string \<Rightarrow> nat" where
  "keyword_score bnd w k =
     (if contains w k then 2 * length k + (if bounded_by bnd w k then 5 else 0) else 0)"

definition entry_score :: "(char \<Rightarrow> bool) \<Rightarrow> string \<Rightarrow> figure \<Rightarrow> nat" where
  "entry_score bnd w fig = foldr max (map (keyword_score bnd w) (fig_keywords fig)) 0"

definition max_score :: "(char \<Rightarrow> bool) \<Rightarrow> string \<Rightarrow> figure list \<Rightarrow> nat" where
  "max_score bnd w figs = foldr max (map (entry_score bnd w) figs) 0"

fun first_reaching :: "(char \<Rightarrow> bool) \<Rightarrow> string \<Rightarrow> nat \<Rightarrow> figure list \<Rightarrow> nat" where
  "first_reaching bnd w s [] = 1"
| "first_reaching bnd w s (fig # figs) =
     (if entry_score bnd w fig = s then num fig else first_reaching bnd w s figs)"

definition resolve :: "(char \<Rightarrow> bool) \<Rightarrow> string \<Rightarrow> nat" where
  "resolve bnd context_text =
     (let w = lower context_text
      in if max_score bnd w FIGURES = 0 then 1
         else first_reaching bnd w (max_score bnd w FIGURES) FIGURES)"

definition is_blank :: "char \<Rightarrow> bool" where
  "is_blank c = (c = CHR '' '')"

section \<open>Notions used in the proofs\<close>

text \<open>Two white-space characters side by side, and a text that starts with one.\<close>

fun adjacent_ws :: "string \<Rightarrow> bool" where
  "adjacent_ws (a # b # cs) = ((is_space a \<and> is_space b) \<or> adjacent_ws (b # cs))"
| "adjacent_ws cs = False"



text \<open>A matcher state \<open>st'\<close> lies \<open>k\<close> characters behind \<open>st\<close> in the same text.\<close>

definition adv :: "mstate \<Rightarrow> mstate \<Rightarrow> bool" where
  "adv st st' = (\<exists>k. k \<le> length (rest st) \<and> rest st' = drop k (rest st) \<and> pos st' = pos st + k)"

text \<open>The state \<open>k\<close> characters further on.\<close>

definition skip :: "nat \<Rightarrow> mstate \<Rightarrow> mstate" where
  "skip k st = st\<lparr>pos := pos st + k, rest := drop k (rest st)\<rparr>"

text \<open>The characters a match consumes between two states.\<close>

definition consumed :: "mstate \<Rightarrow> mstate \<Rightarrow> string" where
  "consumed st st' = take (pos st' - pos st) (rest st)"

text \<open>A sufficient, syntactic condition for: every match of the pattern contains a
  character of the class \<open>P\<close>. Under \<open>re.IGNORECASE\<close> a literal character stands for its
  lower-case and upper-case forms.\<close>

definition lit_all :: "bool \<Rightarrow> (char \<Rightarrow> bool) \<Rightarrow> char \<Rightarrow> bool" where
  "lit_all ic P p = (if ic then P (lower_char p) \<and> P (upper_char (lower_char p)) else P p)"

primrec needs :: "bool \<Rightarrow> (char \<Rightarrow> bool) \<Rightarrow> regex \<Rightarrow> bool" where
  "needs ic P (Lit s) = list_ex (lit_all ic P) s"
| "needs ic P (Set items) = False"
| "needs ic P (NSet items) = False"
| "needs ic P Dot = False"
| "needs ic P (Seq a b) = (needs ic P a \<or> needs ic P b)"
| "needs ic P (Alt a b) = (needs ic P a \<and> needs ic P b)"
| "needs ic P (Rep r lo hi) = (0 < lo \<and> needs ic P r)"
| "needs ic P (RepLazy r lo hi) = (0 < lo \<and> needs ic P r)"
| "needs ic P (Grp n r) = needs ic P r"
| "needs ic P (Backref n) = False"
| "needs ic P (Ahead r) = False"
| "needs ic P (NotAhead r) = False"
| "needs ic P Bos = False"
| "needs ic P Eos = False"
| "needs ic P Dollar = False"

text \<open>The invariant of the loop of \<open>extract_claims\<close>, and what it is for a candidate to be
  admitted: the list of claims grows by one record.\<close>

definition claims_inv :: "claim list \<times> nat set \<Rightarrow> bool" where
  "claims_inv state = (case state of (claims, seen) \<Rightarrow>
     seen = set (map number claims) \<and> distinct (map number claims)
     \<and> list_all (\<lambda>c. number c \<le> 65) claims)"


text \<open>The text that \<open>validate_fig\<close> returns when \<open>int\<close> does not raise.\<close>

definition validated_marker :: "pymatch \<Rightarrow> string" where
  "validated_marker m = ''FIG. '' @ str_of_nat (validate_num (int_of_digits (group m 1)))"















text \<open>Sufficient, syntactic conditions on a pattern: every character of a match is in
  the class \<open>Q\<close> (\<open>all_chars\<close>); every text captured by group \<open>n\<close> consists of
  characters in \<open>Q\<close> (\<open>grp_ok\<close>); the pattern has no group (\<open>grp_free\<close>). And the least
  number of characters a match consumes.\<close>

definition set_all :: "bool \<Rightarrow> (char \<Rightarrow> bool) \<Rightarrow> citem list \<Rightarrow> bool" where
  "set_all ic Q items = (\<forall>x. in_set ic items x \<longrightarrow> Q x)"

primrec all_chars :: "bool \<Rightarrow> (char \<Rightarrow> bool) \<Rightarrow> regex \<Rightarrow> bool" where
  "all_chars ic Q (Lit s) = list_all (lit_all ic Q) s"
| "all_chars ic Q (Set items) = set_all ic Q items"
| "all_chars ic Q (NSet items) = False"
| "all_chars ic Q Dot = False"
| "all_chars ic Q (Seq a b) = (all_chars ic Q a \<and> all_chars ic Q b)"
| "all_chars ic Q (Alt a b) = (all_chars ic Q a \<and> all_chars ic Q b)"
| "all_chars ic Q (Rep r lo hi) = all_chars ic Q r"
| "all_chars ic Q (RepLazy r lo hi) = all_chars ic Q r"
| "all_chars ic Q (Grp n r) = all_chars ic Q r"
| "all_chars ic Q (Backref n) = False"
| "all_chars ic Q (Ahead r) = True"
| "all_chars ic Q (NotAhead r) = True"
| "all_chars ic Q Bos = True"
| "all_chars ic Q Eos = True"
| "all_chars ic Q Dollar = True"

primrec grp_ok :: "bool \<Rightarrow> nat \<Rightarrow> (char \<Rightarrow> bool) \<Rightarrow> regex \<Rightarrow> bool" where
  "grp_ok ic n Q (Lit s) = True"
| "grp_ok ic n Q (Set items) = True"
| "grp_ok ic n Q (NSet items) = True"
| "grp_ok ic n Q Dot = True"
| "grp_ok ic n Q (Seq a b) = (grp_ok ic n Q a \<and> grp_ok ic n Q b)"
| "grp_ok ic n Q (Alt a b) = (grp_ok ic n Q a \<and> grp_ok ic n Q b)"
| "grp_ok ic n Q (Rep r lo hi) = grp_ok ic n Q r"
| "grp_ok ic n Q (RepLazy r lo hi) = grp_ok ic n Q r"
| "grp_ok ic n Q (Grp k r) = ((k = n \<longrightarrow> all_chars ic Q r) \<and> grp_ok ic n Q r)"
| "grp_ok ic n Q (Backref k) = True"
| "grp_ok ic n Q (Ahead r) = grp_ok ic n Q r"
| "grp_ok ic n Q (NotAhead r) = True"
| "grp_ok ic n Q Bos = True"
| "grp_ok ic n Q Eos = True"
| "grp_ok ic n Q Dollar = True"

definition caps_ok :: "nat \<Rightarrow> (char \<Rightarrow> bool) \<Rightarrow> mstate \<Rightarrow> bool" where
  "caps_ok n Q st = (\<forall>g. (n, g) \<in> set (caps st) \<longrightarrow> (\<forall>c\<in>set g. Q c))"

primrec minlen :: "regex \<Rightarrow> nat" where
  "minlen (Lit s) = length s"
| "minlen (Set items) = 1"
| "minlen (NSet items) = 1"
| "minlen Dot = 1"
| "minlen (Seq a b) = minlen a + minlen b"
| "minlen (Alt a b) = min (minlen a) (minlen b)"
| "minlen (Rep r lo hi) = lo * minlen r"
| "minlen (RepLazy r lo hi) = lo * minlen r"
| "minlen (Grp n r) = minlen r"
| "minlen (Backref n) = 0"
| "minlen (Ahead r) = 0"
| "minlen (NotAhead r) = 0"
| "minlen Bos = 0"
| "minlen Eos = 0"
| "minlen Dollar = 0"

primrec grp_free :: "regex \<Rightarrow> bool" where
  "grp_free (Lit s) = True"
| "grp_free (Set items) = True"
| "grp_free (NSet items) = True"
| "grp_free Dot = True"
| "grp_free (Seq a b) = (grp_free a \<and> grp_free b)"
| "grp_free (Alt a b) = (grp_free a \<and> grp_free b)"
| "grp_free (Rep r lo hi) = grp_free r"
| "grp_free (RepLazy r lo hi) = grp_free r"
| "grp_free (Grp n r) = False"
| "grp_free (Backref n) = True"
| "grp_free (Ahead r) = grp_free r"
| "grp_free (NotAhead r) = True"
| "grp_free Bos = True"
| "grp_free Eos = True"
| "grp_free Dollar = True"
section \<open>Evaluation\<close>


lemma is_digit_code [code]:
  "is_digit (Char b0 b1 b2 b3 b4 b5 b6 b7) =
     (\<not> b7 \<and> (\<not> b6 \<and> (b5 \<and> (b4 \<and> (\<not> b3 \<or> (\<not> b2 \<and> \<not> b1))))))"
  by (cases b0; cases b1; cases b2; cases b3; cases b4; cases b5; cases b6; cases b7;
      simp add: is_digit_def cp_def)

lemma is_upper_code [code]:
  "is_upper (Char b0 b1 b2 b3 b4 b5 b6 b7) =
     (if b7 then (b6 \<and> (\<not> b5 \<and> (\<not> b4 \<or> (\<not> b2 \<or> (\<not> b1 \<or> \<not> b0))))) else (b6 \<and> (\<not> b5 \<and> (if b4 then (\<not> b3 \<or> (\<not> b2 \<and> (\<not> b1 \<or> \<not> b0))) else (b3 \<or> (b2 \<or> (b1 \<or> b0)))))))"
  by (cases b0; cases b1; cases b2; cases b3; cases b4; cases b5; cases b6; cases b7;
      simp add: is_upper_def cp_def)

lemma is_lower_code [code]:
  "is_lower (Char b0 b1 b2 b3 b4 b5 b6 b7) =
     (if b7 then (b6 \<and> (b5 \<and> (\<not> b4 \<or> (\<not> b2 \<or> (\<not> b1 \<or> \<not> b0))))) else (b6 \<and> (b5 \<and> (if b4 then (\<not> b3 \<or> (\<not> b2 \<and> (\<not> b1 \<or> \<not> b0))) else (b3 \<or> (b2 \<or> (b1 \<or> b0)))))))"
  by (cases b0; cases b1; cases b2; cases b3; cases b4; cases b5; cases b6; cases b7;
      simp add: is_lower_def cp_def)

lemma is_word_code [code]:
  "is_word (Char b0 b1 b2 b3 b4 b5 b6 b7) =
     (if b7 then (if b6 then (\<not> b4 \<or> (b3 \<or> (\<not> b2 \<or> (\<not> b1 \<or> \<not> b0)))) else (b5 \<and> (if b4 then (if b3 then (if b2 then (\<not> b1 \<or> \<not> b0) else (if b1 then \<not> b0 else b0)) else (if b2 then (\<not> b1 \<and> b0) else b1)) else (b3 \<and> (\<not> b2 \<and> (b1 \<and> \<not> b0)))))) else (if b6 then (if b5 then (if b4 then (\<not> b3 \<or> (\<not> b2 \<and> (\<not> b1 \<or> \<not> b0))) else (b3 \<or> (b2 \<or> (b1 \<or> b0)))) else (if b4 then (\<not> b3 \<or> (if b2 then (b1 \<and> b0) else (\<not> b1 \<or> \<not> b0))) else (b3 \<or> (b2 \<or> (b1 \<or> b0))))) else (b5 \<and> (b4 \<and> (\<not> b3 \<or> (\<not> b2 \<and> \<not> b1))))))"
  by (cases b0; cases b1; cases b2; cases b3; cases b4; cases b5; cases b6; cases b7;
      simp add: is_word_def is_digit_def cp_def)

text \<open>Changing case sets or clears bit 5.\<close>

lemma lower_char_code [code]:
  "lower_char (Char b0 b1 b2 b3 b4 b5 b6 b7) =
     Char b0 b1 b2 b3 b4 (b5 \<or> is_upper (Char b0 b1 b2 b3 b4 b5 b6 b7)) b6 b7"
  by (cases b0; cases b1; cases b2; cases b3; cases b4; cases b5; cases b6; cases b7;
      simp add: lower_char_def is_upper_def cp_def char_of_eq_iff)

lemma upper_char_code [code]:
  "upper_char (Char b0 b1 b2 b3 b4 b5 b6 b7) =
     Char b0 b1 b2 b3 b4 (b5 \<and> \<not> is_lower (Char b0 b1 b2 b3 b4 b5 b6 b7)) b6 b7"
  by (cases b0; cases b1; cases b2; cases b3; cases b4; cases b5; cases b6; cases b7;
      simp add: upper_char_def is_lower_def cp_def char_of_eq_iff)

section \<open>Properties of the matcher\<close>


lemma adv_refl: "adv st st"
  unfolding adv_def by (rule exI [of _ 0]) simp

lemma adv_caps: "adv st st' \<Longrightarrow> adv st (st'\<lparr>caps := c\<rparr>)"
  unfolding adv_def by simp

lemma adv_trans: "adv a b \<Longrightarrow> adv b c \<Longrightarrow> adv a c"
proof -
  assume "adv a b" "adv b c"
  then obtain k l where k: "k \<le> length (rest a)" "rest b = drop k (rest a)" "pos b = pos a + k"
    and l: "l \<le> length (rest b)" "rest c = drop l (rest b)" "pos c = pos b + l"
    unfolding adv_def by blast
  have "k + l \<le> length (rest a)" using k l by simp
  moreover have "rest c = drop (k + l) (rest a)" using k l by (simp add: add.commute)
  moreover have "pos c = pos a + (k + l)" using k l by simp
  ultimately show "adv a c" unfolding adv_def by blast
qed

lemma step1_adv: "st' \<in> set (step1 P st) \<Longrightarrow> adv st st'"
  unfolding step1_def adv_def
  by (cases "rest st") (auto split: if_splits intro!: exI [of _ 1])

lemma lit_match_adv: "st' \<in> set (lit_match ic s st) \<Longrightarrow> adv st st'"
proof (induction s arbitrary: st)
  case Nil
  then show ?case by (simp add: adv_refl)
next
  case (Cons p ps)
  then obtain st1 where "st1 \<in> set (step1 (lit_eq ic p) st)" "st' \<in> set (lit_match ic ps st1)"
    by auto
  then show ?case using Cons.IH step1_adv adv_trans by blast
qed

lemma rep_greedy_adv:
  assumes m: "\<And>a b. b \<in> set (m a) \<Longrightarrow> adv a b"
  shows "st' \<in> set (rep_greedy n m lo hi st) \<Longrightarrow> adv st st'"
proof (induction n arbitrary: st lo hi)
  case 0
  then show ?case by (auto simp: adv_refl split: if_splits)
next
  case (Suc n)
  then show ?case
    by (auto simp: adv_refl split: if_splits dest!: m intro: adv_trans)
qed

lemma rep_lazy_adv:
  assumes m: "\<And>a b. b \<in> set (m a) \<Longrightarrow> adv a b"
  shows "st' \<in> set (rep_lazy n m lo hi st) \<Longrightarrow> adv st st'"
proof (induction n arbitrary: st lo hi)
  case 0
  then show ?case by (auto simp: adv_refl split: if_splits)
next
  case (Suc n)
  then show ?case
    by (auto simp: adv_refl split: if_splits dest!: m intro: adv_trans)
qed

lemma rmatch_adv: "st' \<in> set (rmatch f r st) \<Longrightarrow> adv st st'"
proof (induction r arbitrary: st st')
  case (Lit s)
  then show ?case by (simp add: lit_match_adv)
next
  case (Set items)
  then show ?case by (simp add: step1_adv)
next
  case (NSet items)
  then show ?case by (simp add: step1_adv)
next
  case Dot
  then show ?case by (simp add: step1_adv)
next
  case (Seq a b)
  then show ?case by (auto) (blast intro: adv_trans)
next
  case (Alt a b)
  then show ?case by auto
next
  case (Rep r lo hi)
  then show ?case using rep_greedy_adv [of "rmatch f r"] by auto
next
  case (RepLazy r lo hi)
  then show ?case using rep_lazy_adv [of "rmatch f r"] by auto
next
  case (Grp n r)
  then show ?case by (auto intro: adv_caps)
next
  case (Backref n)
  then show ?case by (auto simp: lit_match_adv split: option.splits)
next
  case (Ahead r)
  then show ?case by (auto split: list.splits intro: adv_caps adv_refl)
next
  case (NotAhead r)
  then show ?case by (auto simp: adv_refl split: if_splits)
next
  case Bos
  then show ?case by (auto simp: adv_refl split: if_splits)
next
  case Eos
  then show ?case by (auto simp: adv_refl split: if_splits)
next
  case Dollar
  then show ?case by (auto simp: adv_refl split: if_splits)
qed

lemma lower_char_cases: "lower_char x = y \<Longrightarrow> x = y \<or> x = upper_char y"
proof (cases x)
  case (Char b0 b1 b2 b3 b4 b5 b6 b7)
  assume "lower_char x = y"
  then have y: "y = lower_char (Char b0 b1 b2 b3 b4 b5 b6 b7)" using Char by simp
  show ?thesis
    unfolding Char y
    by (cases b0; cases b1; cases b2; cases b3; cases b4; cases b5; cases b6; cases b7;
        simp add: lower_char_code upper_char_code is_upper_code is_lower_code)
qed

lemma lit_all_eq: "lit_all ic P p \<Longrightarrow> lit_eq ic p x \<Longrightarrow> P x"
  using lower_char_cases [of x "lower_char p"]
  by (auto simp: lit_all_def lit_eq_def split: if_splits)

lemma consumed_trans: "adv a b \<Longrightarrow> adv b c \<Longrightarrow> consumed a c = consumed a b @ consumed b c"
proof -
  assume "adv a b" "adv b c"
  then obtain k l where k: "k \<le> length (rest a)" "rest b = drop k (rest a)" "pos b = pos a + k"
    and l: "l \<le> length (rest b)" "rest c = drop l (rest b)" "pos c = pos b + l"
    unfolding adv_def by blast
  show ?thesis
    using k l by (simp add: consumed_def take_add)
qed

lemma consumed_caps [simp]: "consumed st (st'\<lparr>caps := c\<rparr>) = consumed st st'"
  by (simp add: consumed_def)

lemma step1_consumed: "st' \<in> set (step1 Q st) \<Longrightarrow> \<exists>c. consumed st st' = [c] \<and> Q c"
  unfolding step1_def consumed_def
  by (cases "rest st") (auto split: if_splits)

lemma lit_match_needs:
  "list_ex (lit_all ic P) s \<Longrightarrow> st' \<in> set (lit_match ic s st) \<Longrightarrow> \<exists>c\<in>set (consumed st st'). P c"
proof (induction s arbitrary: st)
  case Nil
  then show ?case by simp
next
  case (Cons p ps)
  from Cons.prems(2) obtain st1 where
    1: "st1 \<in> set (step1 (lit_eq ic p) st)" and 2: "st' \<in> set (lit_match ic ps st1)"
    by auto
  have c: "consumed st st' = consumed st st1 @ consumed st1 st'"
    using 1 2 by (intro consumed_trans step1_adv lit_match_adv)
  from 1 obtain x where x: "consumed st st1 = [x]" "lit_eq ic p x"
    using step1_consumed by blast
  show ?case
  proof (cases "lit_all ic P p")
    case True
    then have "P x" using x lit_all_eq by blast
    then show ?thesis using c x by auto
  next
    case False
    then have "list_ex (lit_all ic P) ps" using Cons.prems(1) by simp
    then have "\<exists>c\<in>set (consumed st1 st'). P c" using Cons.IH 2 by blast
    then show ?thesis using c by auto
  qed
qed

lemma rep_greedy_needs:
  assumes m: "\<And>a b. b \<in> set (m a) \<Longrightarrow> adv a b"
    and n: "\<And>a b. b \<in> set (m a) \<Longrightarrow> \<exists>c\<in>set (consumed a b). P c"
    and lo: "0 < lo"
    and r: "st' \<in> set (rep_greedy k m lo hi st)"
  shows "\<exists>c\<in>set (consumed st st'). P c"
proof (cases k)
  case 0
  then show ?thesis using lo r by simp
next
  case (Suc j)
  with r lo obtain st1 where
    1: "st1 \<in> set (m st)" and 2: "st' \<in> set (rep_greedy j m (lo - 1) (map_option (\<lambda>h. h - 1) hi) st1)"
    by (auto split: if_splits)
  have "consumed st st' = consumed st st1 @ consumed st1 st'"
    using 1 2 m rep_greedy_adv [of m] by (intro consumed_trans) blast+
  then show ?thesis using n [OF 1] by auto
qed

lemma rep_lazy_needs:
  assumes m: "\<And>a b. b \<in> set (m a) \<Longrightarrow> adv a b"
    and n: "\<And>a b. b \<in> set (m a) \<Longrightarrow> \<exists>c\<in>set (consumed a b). P c"
    and lo: "0 < lo"
    and r: "st' \<in> set (rep_lazy k m lo hi st)"
  shows "\<exists>c\<in>set (consumed st st'). P c"
proof (cases k)
  case 0
  then show ?thesis using lo r by simp
next
  case (Suc j)
  with r lo obtain st1 where
    1: "st1 \<in> set (m st)" and 2: "st' \<in> set (rep_lazy j m (lo - 1) (map_option (\<lambda>h. h - 1) hi) st1)"
    by (auto split: if_splits)
  have "consumed st st' = consumed st st1 @ consumed st1 st'"
    using 1 2 m rep_lazy_adv [of m] by (intro consumed_trans) blast+
  then show ?thesis using n [OF 1] by auto
qed

lemma rmatch_needs:
  "needs (ignorecase f) P r \<Longrightarrow> st' \<in> set (rmatch f r st) \<Longrightarrow> \<exists>c\<in>set (consumed st st'). P c"
proof (induction r arbitrary: st st')
  case (Lit s)
  then show ?case using lit_match_needs by simp
next
  case (Seq a b)
  from Seq.prems(2) obtain st1 where
    1: "st1 \<in> set (rmatch f a st)" and 2: "st' \<in> set (rmatch f b st1)"
    by auto
  have c: "consumed st st' = consumed st st1 @ consumed st1 st'"
    using 1 2 by (intro consumed_trans rmatch_adv)
  show ?case
  proof (cases "needs (ignorecase f) P a")
    case True
    then show ?thesis using Seq.IH(1) 1 c by fastforce
  next
    case False
    then have "needs (ignorecase f) P b" using Seq.prems(1) by simp
    then show ?thesis using Seq.IH(2) 2 c by fastforce
  qed
next
  case (Alt a b)
  then show ?case by auto
next
  case (Rep r lo hi)
  then show ?case
    using rep_greedy_needs [of "rmatch f r" P lo st' "length (rest st)" hi st] rmatch_adv
    by auto
next
  case (RepLazy r lo hi)
  then show ?case
    using rep_lazy_needs [of "rmatch f r" P lo st' "length (rest st)" hi st] rmatch_adv
    by auto
next
  case (Grp n r)
  then show ?case by auto
qed simp_all





lemma skip_0 [simp]: "skip 0 st = st"
  by (simp add: skip_def)














lemma adjacent_ws_contains:
  "contains s [a, b] \<Longrightarrow> is_space a \<Longrightarrow> is_space b \<Longrightarrow> adjacent_ws s"
proof (induction s rule: adjacent_ws.induct)
  case (1 x y cs)
  then show ?case by (cases cs) auto
qed auto



section \<open>Substitution with a callback that can raise\<close>

lemma prepend_Inr: "prepend a x = Inr t \<Longrightarrow> \<exists>u. x = Inr u \<and> t = a @ u"
  by (cases x) simp_all

lemma sub_from_try_returned:
  assumes g: "\<And>m out. repl m = Inr out \<Longrightarrow> g m = out"
  shows "sub_from_try f r repl p s = Inr t \<Longrightarrow> t = sub_from f r g p s"
proof (induction "length s" arbitrary: s p t rule: less_induct)
  case less
  show ?case
  proof (cases s)
    case Nil
    then show ?thesis
      using less.prems by (cases "match_at f r p []") (simp_all add: g)
  next
    case (Cons c cs)
    note ih = less.hyps [unfolded Cons]
    show ?thesis
    proof (cases "match_at f r p (c # cs)")
      case None
      then obtain u where u: "sub_from_try f r repl (Suc p) cs = Inr u" "t = c # u"
        using less.prems Cons by (auto dest: prepend_Inr)
      have "u = sub_from f r g (Suc p) cs" using ih [of cs] u(1) by simp
      then show ?thesis using None Cons u(2) by simp
    next
      case (Some m)
      then obtain out where out: "repl m = Inr out"
        using less.prems Cons by (cases "repl m") simp_all
      have ro: "g m = out" using out by (rule g)
      show ?thesis
      proof (cases "mend m = p")
        case True
        then obtain u where u: "sub_from_try f r repl (Suc p) cs = Inr u" "t = out @ c # u"
          using less.prems Cons Some out by (auto dest!: prepend_Inr)
        have "u = sub_from f r g (Suc p) cs" using ih [of cs] u(1) by simp
        then show ?thesis using Some Cons u(2) True ro by simp
      next
        case False
        then obtain u where
          u: "sub_from_try f r repl (mend m) (drop (mend m - Suc p) cs) = Inr u" "t = out @ u"
          using less.prems Cons Some out by (auto dest!: prepend_Inr)
        have "u = sub_from f r g (mend m) (drop (mend m - Suc p) cs)"
          using ih [of "drop (mend m - Suc p) cs"] u(1) by simp
        then show ?thesis using Some Cons u(2) False ro by simp
      qed
    qed
  qed
qed

lemma validate_fig_returned: "validate_fig m = Inr out \<Longrightarrow> validated_marker m = out"
  by (auto simp: validate_fig_def validated_marker_def py_int_def split: if_splits
           simp del: str_of_nat.simps)

lemma validate_stage_returned:
  "validate_stage s = Inr t \<Longrightarrow> t = re_sub IGNORECASE pat_validate validated_marker s"
  unfolding validate_stage_def re_sub_try_def re_sub_def
  by (rule sub_from_try_returned [of validate_fig validated_marker]) (rule validate_fig_returned)

section \<open>What a match consumes and captures\<close>

lemma step1_all: "st' \<in> set (step1 P st) \<Longrightarrow> \<forall>c\<in>set (consumed st st'). P c"
  using step1_consumed [of st' P st] by auto

lemma lit_match_all:
  "list_all (lit_all ic Q) s \<Longrightarrow> st' \<in> set (lit_match ic s st) \<Longrightarrow> \<forall>c\<in>set (consumed st st'). Q c"
proof (induction s arbitrary: st)
  case Nil
  then show ?case by (simp add: consumed_def)
next
  case (Cons p ps)
  from Cons.prems(2) obtain st1 where
    1: "st1 \<in> set (step1 (lit_eq ic p) st)" and 2: "st' \<in> set (lit_match ic ps st1)"
    by auto
  have c: "consumed st st' = consumed st st1 @ consumed st1 st'"
    using 1 2 by (intro consumed_trans step1_adv lit_match_adv)
  from 1 obtain x where x: "consumed st st1 = [x]" "lit_eq ic p x"
    using step1_consumed by blast
  have "Q x" using Cons.prems(1) x(2) lit_all_eq by simp blast
  moreover have "\<forall>c\<in>set (consumed st1 st'). Q c" using Cons.IH 2 Cons.prems(1) by simp
  ultimately show ?case using c x by auto
qed

lemma rep_greedy_all:
  assumes m: "\<And>a b. b \<in> set (m a) \<Longrightarrow> adv a b"
    and n: "\<And>a b. b \<in> set (m a) \<Longrightarrow> \<forall>c\<in>set (consumed a b). Q c"
  shows "st' \<in> set (rep_greedy k m lo hi st) \<Longrightarrow> \<forall>c\<in>set (consumed st st'). Q c"
proof (induction k arbitrary: st lo hi)
  case 0
  then show ?case by (auto simp: consumed_def split: if_splits)
next
  case (Suc k)
  show ?case
  proof (cases "st' = st")
    case True
    then show ?thesis by (simp add: consumed_def)
  next
    case False
    with Suc.prems obtain st1 where
      1: "st1 \<in> set (m st)"
      and 2: "st' \<in> set (rep_greedy k m (lo - 1) (map_option (\<lambda>h. h - 1) hi) st1)"
      by (auto split: if_splits)
    have "consumed st st' = consumed st st1 @ consumed st1 st'"
      using 1 2 m rep_greedy_adv [of m] by (intro consumed_trans) blast+
    then show ?thesis using n [OF 1] Suc.IH [OF 2] by auto
  qed
qed

lemma rep_lazy_all:
  assumes m: "\<And>a b. b \<in> set (m a) \<Longrightarrow> adv a b"
    and n: "\<And>a b. b \<in> set (m a) \<Longrightarrow> \<forall>c\<in>set (consumed a b). Q c"
  shows "st' \<in> set (rep_lazy k m lo hi st) \<Longrightarrow> \<forall>c\<in>set (consumed st st'). Q c"
proof (induction k arbitrary: st lo hi)
  case 0
  then show ?case by (auto simp: consumed_def split: if_splits)
next
  case (Suc k)
  show ?case
  proof (cases "st' = st")
    case True
    then show ?thesis by (simp add: consumed_def)
  next
    case False
    with Suc.prems obtain st1 where
      1: "st1 \<in> set (m st)"
      and 2: "st' \<in> set (rep_lazy k m (lo - 1) (map_option (\<lambda>h. h - 1) hi) st1)"
      by (auto split: if_splits)
    have "consumed st st' = consumed st st1 @ consumed st1 st'"
      using 1 2 m rep_lazy_adv [of m] by (intro consumed_trans) blast+
    then show ?thesis using n [OF 1] Suc.IH [OF 2] by auto
  qed
qed

lemma all_chars_consumed:
  "all_chars (ignorecase f) Q r \<Longrightarrow> st' \<in> set (rmatch f r st) \<Longrightarrow> \<forall>c\<in>set (consumed st st'). Q c"
proof (induction r arbitrary: st st')
  case (Lit s)
  then show ?case using lit_match_all by simp
next
  case (Set items)
  then have "st' \<in> set (step1 (in_set (ignorecase f) items) st)" by simp
  from step1_all [OF this] Set.prems(1) show ?case by (simp add: set_all_def)
next
  case (Seq a b)
  from Seq.prems(2) obtain st1 where
    1: "st1 \<in> set (rmatch f a st)" and 2: "st' \<in> set (rmatch f b st1)"
    by auto
  have c: "consumed st st' = consumed st st1 @ consumed st1 st'"
    using 1 2 by (intro consumed_trans rmatch_adv)
  have a: "all_chars (ignorecase f) Q a" "all_chars (ignorecase f) Q b"
    using Seq.prems(1) by simp_all
  show ?case unfolding c using Seq.IH(1) [OF a(1) 1] Seq.IH(2) [OF a(2) 2] by auto
next
  case (Alt a b)
  have a: "all_chars (ignorecase f) Q a" "all_chars (ignorecase f) Q b"
    using Alt.prems(1) by simp_all
  from Alt.prems(2) have "st' \<in> set (rmatch f a st) \<or> st' \<in> set (rmatch f b st)" by simp
  then show ?case using Alt.IH(1) [OF a(1)] Alt.IH(2) [OF a(2)] by blast
next
  case (Rep r lo hi)
  have a: "all_chars (ignorecase f) Q r" using Rep.prems(1) by simp
  have m: "st' \<in> set (rep_greedy (length (rest st)) (rmatch f r) lo hi st)"
    using Rep.prems(2) by simp
  show ?case
    by (rule rep_greedy_all [OF _ _ m]) (erule rmatch_adv, erule Rep.IH [OF a])
next
  case (RepLazy r lo hi)
  have a: "all_chars (ignorecase f) Q r" using RepLazy.prems(1) by simp
  have m: "st' \<in> set (rep_lazy (length (rest st)) (rmatch f r) lo hi st)"
    using RepLazy.prems(2) by simp
  show ?case
    by (rule rep_lazy_all [OF _ _ m]) (erule rmatch_adv, erule RepLazy.IH [OF a])
next
  case (Grp n r)
  have a: "all_chars (ignorecase f) Q r" using Grp.prems(1) by simp
  from Grp.prems(2) obtain st1 where 1: "st1 \<in> set (rmatch f r st)"
    and 2: "st' = st1\<lparr>caps := (n, take (pos st1 - pos st) (rest st)) # caps st1\<rparr>"
    by auto
  show ?case unfolding 2 using Grp.IH [OF a 1] by simp
next
  case (Ahead r)
  then show ?case by (cases "rmatch f r st") (auto simp: consumed_def)
next
  case (NotAhead r)
  then show ?case by (cases "rmatch f r st = []") (auto simp: consumed_def)
next
  case Bos
  then show ?case by (cases "pos st = 0") (auto simp: consumed_def)
next
  case Eos
  then show ?case by (cases "rest st = []") (auto simp: consumed_def)
next
  case Dollar
  then show ?case by (cases "rest st = [] \<or> rest st = [CHR 0x0A]") (auto simp: consumed_def)
qed simp_all


lemma step1_caps: "st' \<in> set (step1 P st) \<Longrightarrow> caps st' = caps st"
  unfolding step1_def by (cases "rest st") (auto split: if_splits)

lemma lit_match_caps: "st' \<in> set (lit_match ic s st) \<Longrightarrow> caps st' = caps st"
proof (induction s arbitrary: st)
  case Nil
  then show ?case by simp
next
  case (Cons p ps)
  from Cons.prems obtain st1 where
    1: "st1 \<in> set (step1 (lit_eq ic p) st)" and 2: "st' \<in> set (lit_match ic ps st1)"
    by auto
  show ?case using Cons.IH [OF 2] step1_caps [OF 1] by simp
qed

lemma rep_greedy_inv:
  assumes m: "\<And>a b. b \<in> set (m a) \<Longrightarrow> I a \<Longrightarrow> I b"
  shows "st' \<in> set (rep_greedy k m lo hi st) \<Longrightarrow> I st \<Longrightarrow> I st'"
proof (induction k arbitrary: st lo hi)
  case 0
  then show ?case by (auto split: if_splits)
next
  case (Suc k)
  show ?case
  proof (cases "st' = st")
    case True
    then show ?thesis using Suc.prems(2) by simp
  next
    case False
    with Suc.prems obtain st1 where
      1: "st1 \<in> set (m st)"
      and 2: "st' \<in> set (rep_greedy k m (lo - 1) (map_option (\<lambda>h. h - 1) hi) st1)"
      by (auto split: if_splits)
    show ?thesis using Suc.IH [OF 2] m [OF 1 Suc.prems(2)] by simp
  qed
qed

lemma rep_lazy_inv:
  assumes m: "\<And>a b. b \<in> set (m a) \<Longrightarrow> I a \<Longrightarrow> I b"
  shows "st' \<in> set (rep_lazy k m lo hi st) \<Longrightarrow> I st \<Longrightarrow> I st'"
proof (induction k arbitrary: st lo hi)
  case 0
  then show ?case by (auto split: if_splits)
next
  case (Suc k)
  show ?case
  proof (cases "st' = st")
    case True
    then show ?thesis using Suc.prems(2) by simp
  next
    case False
    with Suc.prems obtain st1 where
      1: "st1 \<in> set (m st)"
      and 2: "st' \<in> set (rep_lazy k m (lo - 1) (map_option (\<lambda>h. h - 1) hi) st1)"
      by (auto split: if_splits)
    show ?thesis using Suc.IH [OF 2] m [OF 1 Suc.prems(2)] by simp
  qed
qed

lemma grp_ok_caps:
  "grp_ok (ignorecase f) n Q r \<Longrightarrow> st' \<in> set (rmatch f r st) \<Longrightarrow> caps_ok n Q st
   \<Longrightarrow> caps_ok n Q st'"
proof (induction r arbitrary: st st')
  case (Lit s)
  then show ?case using lit_match_caps [of st' "ignorecase f" s st] by (simp add: caps_ok_def)
next
  case (Set items)
  then show ?case
    using step1_caps [of st' "in_set (ignorecase f) items" st] by (simp add: caps_ok_def)
next
  case (NSet items)
  then show ?case
    using step1_caps [of st' "\<lambda>c. \<not> in_set (ignorecase f) items c" st] by (simp add: caps_ok_def)
next
  case Dot
  then show ?case
    using step1_caps [of st' "\<lambda>c. dotall f \<or> c \<noteq> CHR 0x0A" st] by (simp add: caps_ok_def)
next
  case (Seq a b)
  from Seq.prems(2) obtain st1 where
    1: "st1 \<in> set (rmatch f a st)" and 2: "st' \<in> set (rmatch f b st1)"
    by auto
  have a: "grp_ok (ignorecase f) n Q a" "grp_ok (ignorecase f) n Q b"
    using Seq.prems(1) by simp_all
  show ?case using Seq.IH(2) [OF a(2) 2 Seq.IH(1) [OF a(1) 1 Seq.prems(3)]] .
next
  case (Alt a b)
  have a: "grp_ok (ignorecase f) n Q a" "grp_ok (ignorecase f) n Q b"
    using Alt.prems(1) by simp_all
  from Alt.prems(2) have "st' \<in> set (rmatch f a st) \<or> st' \<in> set (rmatch f b st)" by simp
  then show ?case using Alt.IH(1) [OF a(1) _ Alt.prems(3)] Alt.IH(2) [OF a(2) _ Alt.prems(3)] by blast
next
  case (Rep r lo hi)
  have a: "grp_ok (ignorecase f) n Q r" using Rep.prems(1) by simp
  have m: "st' \<in> set (rep_greedy (length (rest st)) (rmatch f r) lo hi st)"
    using Rep.prems(2) by simp
  show ?case
    by (rule rep_greedy_inv [of "rmatch f r" "caps_ok n Q", OF _ m Rep.prems(3)])
       (erule Rep.IH [OF a])
next
  case (RepLazy r lo hi)
  have a: "grp_ok (ignorecase f) n Q r" using RepLazy.prems(1) by simp
  have m: "st' \<in> set (rep_lazy (length (rest st)) (rmatch f r) lo hi st)"
    using RepLazy.prems(2) by simp
  show ?case
    by (rule rep_lazy_inv [of "rmatch f r" "caps_ok n Q", OF _ m RepLazy.prems(3)])
       (erule RepLazy.IH [OF a])
next
  case (Grp k r)
  have a: "grp_ok (ignorecase f) n Q r" "k = n \<longrightarrow> all_chars (ignorecase f) Q r"
    using Grp.prems(1) by simp_all
  from Grp.prems(2) obtain st1 where 1: "st1 \<in> set (rmatch f r st)"
    and 2: "st' = st1\<lparr>caps := (k, consumed st st1) # caps st1\<rparr>"
    by (auto simp: consumed_def)
  have c: "caps_ok n Q st1" using Grp.IH [OF a(1) 1 Grp.prems(3)] .
  have "k = n \<longrightarrow> (\<forall>c\<in>set (consumed st st1). Q c)"
    using a(2) all_chars_consumed [OF _ 1] by blast
  then show ?case unfolding 2 using c by (auto simp: caps_ok_def)
next
  case (Backref k)
  then show ?case
    by (cases "map_of (caps st) k") (auto simp: caps_ok_def dest: lit_match_caps)
next
  case (Ahead r)
  have a: "grp_ok (ignorecase f) n Q r" using Ahead.prems(1) by simp
  show ?case
  proof (cases "rmatch f r st")
    case Nil
    then show ?thesis using Ahead.prems(2) by simp
  next
    case (Cons st1 sts)
    then have "caps_ok n Q st1" using Ahead.IH [OF a _ Ahead.prems(3), of st1] by simp
    then show ?thesis using Ahead.prems(2) Cons by (simp add: caps_ok_def)
  qed
next
  case (NotAhead r)
  then show ?case by (cases "rmatch f r st = []") auto
next
  case Bos
  then show ?case by (cases "pos st = 0") auto
next
  case Eos
  then show ?case by (cases "rest st = []") auto
next
  case Dollar
  then show ?case by (cases "rest st = [] \<or> rest st = [CHR 0x0A]") auto
qed

lemma match_at_state:
  "match_at f r p u = Some m \<Longrightarrow>
   \<exists>st'. st' \<in> set (rmatch f r \<lparr>pos = p, rest = u, caps = []\<rparr>)
     \<and> mend m = pos st' \<and> mgroups m = (0, take (pos st' - p) u) # caps st'"
  unfolding match_at_def
  by (cases "rmatch f r \<lparr>pos = p, rest = u, caps = []\<rparr>") auto

lemma match_at_bounds:
  assumes n: "needs (ignorecase f) P r" and m: "match_at f r p u = Some m"
  shows "p < mend m \<and> mend m \<le> p + length u"
proof -
  from match_at_state [OF m] obtain st' where
    st: "st' \<in> set (rmatch f r \<lparr>pos = p, rest = u, caps = []\<rparr>)"
    and e: "mend m = pos st'" by blast
  have a: "adv \<lparr>pos = p, rest = u, caps = []\<rparr> st'" using st by (rule rmatch_adv)
  have "consumed \<lparr>pos = p, rest = u, caps = []\<rparr> st' \<noteq> []"
    using rmatch_needs [OF n st] by auto
  then have "p < pos st'" by (auto simp: consumed_def)
  moreover have "pos st' \<le> p + length u" using a by (auto simp: adv_def)
  ultimately show ?thesis using e by simp
qed

lemma group_ok:
  assumes m: "match_at f r p u = Some m" and g: "grp_ok (ignorecase f) n Q r" and n: "0 < n"
  shows "\<forall>c\<in>set (group m n). Q c"
proof -
  from match_at_state [OF m] obtain st' where
    st: "st' \<in> set (rmatch f r \<lparr>pos = p, rest = u, caps = []\<rparr>)"
    and e: "mgroups m = (0, take (pos st' - p) u) # caps st'" by blast
  have c: "caps_ok n Q st'" by (rule grp_ok_caps [OF g st]) (simp add: caps_ok_def)
  show ?thesis
  proof (cases "map_of (caps st') n")
    case None
    then show ?thesis using n e by (simp add: group_def)
  next
    case (Some g)
    then have "(n, g) \<in> set (caps st')" by (rule map_of_SomeD)
    then have "\<forall>c\<in>set g. Q c" using c by (simp add: caps_ok_def)
    then show ?thesis using n e Some by (simp add: group_def)
  qed
qed

lemma grp_free_caps:
  "grp_free r \<Longrightarrow> st' \<in> set (rmatch f r st) \<Longrightarrow> caps st' = caps st"
proof (induction r arbitrary: st st')
  case (Lit s)
  then show ?case using lit_match_caps [of st' "ignorecase f" s st] by simp
next
  case (Set items)
  then show ?case using step1_caps [of st' "in_set (ignorecase f) items" st] by simp
next
  case (NSet items)
  then show ?case
    using step1_caps [of st' "\<lambda>c. \<not> in_set (ignorecase f) items c" st] by simp
next
  case Dot
  then show ?case
    using step1_caps [of st' "\<lambda>c. dotall f \<or> c \<noteq> CHR 0x0A" st] by simp
next
  case (Seq a b)
  from Seq.prems(2) obtain st1 where
    1: "st1 \<in> set (rmatch f a st)" and 2: "st' \<in> set (rmatch f b st1)"
    by auto
  have a: "grp_free a" "grp_free b" using Seq.prems(1) by simp_all
  show ?case using Seq.IH(1) [OF a(1) 1] Seq.IH(2) [OF a(2) 2] by simp
next
  case (Alt a b)
  have a: "grp_free a" "grp_free b" using Alt.prems(1) by simp_all
  from Alt.prems(2) have "st' \<in> set (rmatch f a st) \<or> st' \<in> set (rmatch f b st)" by simp
  then show ?case using Alt.IH(1) [OF a(1)] Alt.IH(2) [OF a(2)] by blast
next
  case (Rep r lo hi)
  have a: "grp_free r" using Rep.prems(1) by simp
  have m: "st' \<in> set (rep_greedy (length (rest st)) (rmatch f r) lo hi st)"
    using Rep.prems(2) by simp
  have "caps st' = caps st"
    by (rule rep_greedy_inv [of "rmatch f r" "\<lambda>s. caps s = caps st", OF _ m])
       (simp_all add: Rep.IH [OF a])
  then show ?case .
next
  case (RepLazy r lo hi)
  have a: "grp_free r" using RepLazy.prems(1) by simp
  have m: "st' \<in> set (rep_lazy (length (rest st)) (rmatch f r) lo hi st)"
    using RepLazy.prems(2) by simp
  have "caps st' = caps st"
    by (rule rep_lazy_inv [of "rmatch f r" "\<lambda>s. caps s = caps st", OF _ m])
       (simp_all add: RepLazy.IH [OF a])
  then show ?case .
next
  case (Grp k r)
  then show ?case by simp
next
  case (Backref k)
  then show ?case by (cases "map_of (caps st) k") (auto dest: lit_match_caps)
next
  case (Ahead r)
  have a: "grp_free r" using Ahead.prems(1) by simp
  show ?case
  proof (cases "rmatch f r st")
    case Nil
    then show ?thesis using Ahead.prems(2) by simp
  next
    case (Cons st1 sts)
    then have "caps st1 = caps st" using Ahead.IH [OF a, of st1] by simp
    then show ?thesis using Ahead.prems(2) Cons by simp
  qed
next
  case (NotAhead r)
  then show ?case by (cases "rmatch f r st = []") auto
next
  case Bos
  then show ?case by (cases "pos st = 0") auto
next
  case Eos
  then show ?case by (cases "rest st = []") auto
next
  case Dollar
  then show ?case by (cases "rest st = [] \<or> rest st = [CHR 0x0A]") auto
qed

lemma step1_pos: "st' \<in> set (step1 P st) \<Longrightarrow> pos st' = Suc (pos st)"
  unfolding step1_def by (cases "rest st") (auto split: if_splits)

lemma lit_match_pos: "st' \<in> set (lit_match ic s st) \<Longrightarrow> pos st' = pos st + length s"
proof (induction s arbitrary: st)
  case Nil
  then show ?case by simp
next
  case (Cons p ps)
  from Cons.prems obtain st1 where
    1: "st1 \<in> set (step1 (lit_eq ic p) st)" and 2: "st' \<in> set (lit_match ic ps st1)"
    by auto
  show ?case using Cons.IH [OF 2] step1_pos [OF 1] by simp
qed

lemma rep_greedy_minlen:
  assumes m: "\<And>a b. b \<in> set (m a) \<Longrightarrow> pos a + d \<le> pos b"
  shows "st' \<in> set (rep_greedy k m lo hi st) \<Longrightarrow> pos st + lo * d \<le> pos st'"
proof (induction k arbitrary: st lo hi)
  case 0
  then show ?case by (auto split: if_splits)
next
  case (Suc k)
  show ?case
  proof (cases "st' = st \<and> lo = 0")
    case True
    then show ?thesis by simp
  next
    case False
    with Suc.prems obtain st1 where
      1: "st1 \<in> set (m st)"
      and 2: "st' \<in> set (rep_greedy k m (lo - 1) (map_option (\<lambda>h. h - 1) hi) st1)"
      by (auto split: if_splits)
    have "pos st1 + (lo - 1) * d \<le> pos st'" using Suc.IH [OF 2] .
    moreover have "lo * d \<le> d + (lo - 1) * d" by (cases lo) simp_all
    ultimately show ?thesis using m [OF 1] by linarith
  qed
qed

lemma rep_lazy_minlen:
  assumes m: "\<And>a b. b \<in> set (m a) \<Longrightarrow> pos a + d \<le> pos b"
  shows "st' \<in> set (rep_lazy k m lo hi st) \<Longrightarrow> pos st + lo * d \<le> pos st'"
proof (induction k arbitrary: st lo hi)
  case 0
  then show ?case by (auto split: if_splits)
next
  case (Suc k)
  show ?case
  proof (cases "st' = st \<and> lo = 0")
    case True
    then show ?thesis by simp
  next
    case False
    with Suc.prems obtain st1 where
      1: "st1 \<in> set (m st)"
      and 2: "st' \<in> set (rep_lazy k m (lo - 1) (map_option (\<lambda>h. h - 1) hi) st1)"
      by (auto split: if_splits)
    have "pos st1 + (lo - 1) * d \<le> pos st'" using Suc.IH [OF 2] .
    moreover have "lo * d \<le> d + (lo - 1) * d" by (cases lo) simp_all
    ultimately show ?thesis using m [OF 1] by linarith
  qed
qed

lemma rmatch_minlen: "st' \<in> set (rmatch f r st) \<Longrightarrow> pos st + minlen r \<le> pos st'"
proof (induction r arbitrary: st st')
  case (Lit s)
  then show ?case using lit_match_pos [of st' "ignorecase f" s st] by simp
next
  case (Set items)
  then show ?case using step1_pos [of st' "in_set (ignorecase f) items" st] by simp
next
  case (NSet items)
  then show ?case
    using step1_pos [of st' "\<lambda>c. \<not> in_set (ignorecase f) items c" st] by simp
next
  case Dot
  then show ?case
    using step1_pos [of st' "\<lambda>c. dotall f \<or> c \<noteq> CHR 0x0A" st] by simp
next
  case (Seq a b)
  from Seq.prems obtain st1 where
    1: "st1 \<in> set (rmatch f a st)" and 2: "st' \<in> set (rmatch f b st1)"
    by auto
  show ?case using Seq.IH(1) [OF 1] Seq.IH(2) [OF 2] by simp
next
  case (Alt a b)
  from Alt.prems have "st' \<in> set (rmatch f a st) \<or> st' \<in> set (rmatch f b st)" by simp
  then show ?case using Alt.IH(1) [of st' st] Alt.IH(2) [of st' st] by auto
next
  case (Rep r lo hi)
  have m: "st' \<in> set (rep_greedy (length (rest st)) (rmatch f r) lo hi st)"
    using Rep.prems by simp
  have "pos st + lo * minlen r \<le> pos st'"
    by (rule rep_greedy_minlen [OF _ m]) (erule Rep.IH)
  then show ?case by simp
next
  case (RepLazy r lo hi)
  have m: "st' \<in> set (rep_lazy (length (rest st)) (rmatch f r) lo hi st)"
    using RepLazy.prems by simp
  have "pos st + lo * minlen r \<le> pos st'"
    by (rule rep_lazy_minlen [OF _ m]) (erule RepLazy.IH)
  then show ?case by simp
next
  case (Grp k r)
  from Grp.prems obtain st1 where 1: "st1 \<in> set (rmatch f r st)" and 2: "pos st' = pos st1"
    by auto
  show ?case using Grp.IH [OF 1] 2 by simp
next
  case (Backref k)
  then show ?case
    using rmatch_adv [of st' f "Backref k" st] by (auto simp: adv_def)
next
  case (Ahead r)
  then show ?case by (cases "rmatch f r st") auto
next
  case (NotAhead r)
  then show ?case by (cases "rmatch f r st = []") auto
next
  case Bos
  then show ?case by (cases "pos st = 0") auto
next
  case Eos
  then show ?case by (cases "rest st = []") auto
next
  case Dollar
  then show ?case by (cases "rest st = [] \<or> rest st = [CHR 0x0A]") auto
qed
section \<open>Properties of the normalizer's stages\<close>





















































section \<open>The repair engine: a second pass\<close>

text \<open>
  Claim C1. Repair is idempotent: applying \<open>fix_all_figure_references\<close> to its own result
  changes nothing.

  The code breaks this on a well-formed reference. The last of the \<open>empty_patterns\<close> of
  step 3, \<open>(in\s+FIG\.?)\s*\.\<close>, is meant for \<open>in FIG .\<close> with no number; it also matches
  \<open>in FIG.\<close> with the period of the marker itself, so that a second marker is written in
  front of the number: \<open>as shown in FIG. 5\<close> becomes \<open>as shown in FIG. 1. 5\<close>, a malformed
  number of the kind the function's own documentation (item 1) says it removes. The next
  pass removes it by step 1 and then writes it again, as \<open>as shown in FIG. 1. 1\<close>.
\<close>

theorem repair_second_pass_differs:
  "fix_all_figure_references ''as shown in FIG. 5'' = Inr ''as shown in FIG. 1. 5''
   \<and> fix_all_figure_references ''as shown in FIG. 1. 5'' = Inr ''as shown in FIG. 1. 1''"
proof -
  have a: "fix_all_figure_references ''as shown in FIG. 5'' = Inr ''as shown in FIG. 1. 5''"
    by code_simp
  have b: "fix_all_figure_references ''as shown in FIG. 1. 5'' = Inr ''as shown in FIG. 1. 1''"
    by code_simp
  show ?thesis using a b by (rule conjI)
qed
section \<open>The context resolver\<close>

lemma startswith_Nil: "startswith [] p = (p = [])"
  by (cases p) simp_all

lemma startswith_append: "startswith (k @ r) k"
  by (induction k) simp_all

lemma startswith_length: "startswith s k \<Longrightarrow> length k \<le> length s"
  by (induction s k rule: startswith.induct) simp_all

lemma startswith_take: "startswith s k = (take (length k) s = k)"
  by (induction s k rule: startswith.induct) auto

lemma startswith_snoc:
  "startswith (x @ '' '') (k @ '' '') = (startswith x k \<and> follow_ok is_blank (drop (length k) x))"
proof (induction x k rule: startswith.induct)
  case (1 s)
  then show ?case by (cases s) (auto simp: follow_ok_def is_blank_def)
next
  case (2 p ps)
  then show ?case by (cases ps) (auto simp: follow_ok_def)
next
  case (3 c cs p ps)
  then show ?case by simp
qed

lemma contains_short: "length s < length k \<Longrightarrow> \<not> contains s k"
proof (induction s)
  case Nil
  then show ?case by auto
next
  case (Cons c cs)
  then show ?case using startswith_length [of "c # cs" k] by auto
qed

lemma contains_padded:
  "contains (c0 # w @ '' '') (CHR '' '' # k @ '' '')
     = bounded_scan is_blank (is_blank c0) w k"
proof (induction w arbitrary: c0)
  case Nil
  have "\<not> contains '' '' (CHR '' '' # k @ '' '')"
    by (rule contains_short) simp
  then show ?case
    by (cases k) (auto simp: is_blank_def startswith_Nil)
next
  case (Cons c cs)
  have s: "startswith (c # cs @ '' '') (k @ '' '')
          = (startswith (c # cs) k \<and> follow_ok is_blank (drop (length k) (c # cs)))"
    using startswith_snoc [of "c # cs" k] by simp
  have "contains (c0 # (c # cs) @ '' '') (CHR '' '' # k @ '' '')
          = ((c0 = CHR '' '' \<and> startswith (c # cs @ '' '') (k @ '' ''))
             \<or> contains (c # cs @ '' '') (CHR '' '' # k @ '' ''))"
    by simp
  also have "\<dots> = ((is_blank c0 \<and> startswith (c # cs) k \<and> follow_ok is_blank (drop (length k) (c # cs)))
                     \<or> bounded_scan is_blank (is_blank c) cs k)"
    unfolding s Cons.IH [of c] by (simp add: is_blank_def)
  finally show ?case by simp
qed

lemma keyword_step_score:
  "keyword_step w n best k =
     (if keyword_score is_blank w k > snd best then (n, keyword_score is_blank w k) else best)"
  using contains_padded [of "CHR '' ''" w k]
  by (simp add: keyword_step_def keyword_score_def bounded_by_def Let_def is_blank_def)

lemma inner_loop:
  "foldl (keyword_step w n) best ks =
     (if foldr max (map (keyword_score is_blank w) ks) 0 > snd best
      then (n, foldr max (map (keyword_score is_blank w) ks) 0) else best)"
proof (induction ks arbitrary: best)
  case Nil
  then show ?case by simp
next
  case (Cons k ks)
  define M where "M = foldr max (map (keyword_score is_blank w) ks) 0"
  define s where "s = keyword_score is_blank w k"
  have "foldl (keyword_step w n) best (k # ks) = foldl (keyword_step w n) (keyword_step w n best k) ks"
    by simp
  also have "\<dots> = (if M > snd (keyword_step w n best k) then (n, M) else keyword_step w n best k)"
    unfolding M_def by (rule Cons.IH)
  also have "\<dots> = (if max s M > snd best then (n, max s M) else best)"
    by (auto simp: keyword_step_score s_def [symmetric] max_def)
  finally show ?case
    by (simp add: M_def s_def)
qed

lemma figure_step_score:
  "figure_step w best fig =
     (if entry_score is_blank w fig > snd best then (num fig, entry_score is_blank w fig) else best)"
  by (simp add: figure_step_def inner_loop entry_score_def)

lemma outer_loop:
  "foldl (figure_step w) best figs =
     (if max_score is_blank w figs > snd best
      then (first_reaching is_blank w (max_score is_blank w figs) figs, max_score is_blank w figs)
      else best)"
proof (induction figs arbitrary: best)
  case Nil
  then show ?case by (simp add: max_score_def)
next
  case (Cons fig figs)
  define M where "M = max_score is_blank w figs"
  define e where "e = entry_score is_blank w fig"
  have m: "max_score is_blank w (fig # figs) = max e M"
    by (simp add: max_score_def M_def e_def)
  have "foldl (figure_step w) best (fig # figs) = foldl (figure_step w) (figure_step w best fig) figs"
    by simp
  also have "\<dots> = (if M > snd (figure_step w best fig)
                    then (first_reaching is_blank w M figs, M) else figure_step w best fig)"
    unfolding M_def by (rule Cons.IH)
  also have "\<dots> = (if max e M > snd best
                    then (first_reaching is_blank w (max e M) (fig # figs), max e M) else best)"
    by (auto simp: figure_step_score e_def [symmetric] max_def)
  finally show ?case
    by (simp add: m)
qed

text \<open>
  Claim C3. For every window, \<open>get_figure_number_from_context\<close> returns the number of the
  first catalog entry, in declaration order, that reaches the maximal score, where a
  keyword that occurs in the window (in any case) scores twice its length plus 5 when it
  is bounded by white space; later equal scores never override; the result is 1 when no
  keyword occurs; and the window \<open>...the valence dimension is shown in.\<close> resolves to
  figure 8.

  This fails on the code as stated (see \<open>resolver_tab_bounded\<close> below): the bonus is given
  for a keyword bounded by space characters (or by the ends of the window), not by any
  white space. With that class of boundary the claim holds: the function is \<open>resolve\<close>
  with the class \<open>is_blank\<close>.
\<close>

theorem resolver_first_maximum:
  "get_figure_number_from_context context_text = resolve is_blank context_text
   \<and> get_figure_number_from_context ''...the valence dimension is shown in.'' = 8"
proof
  show "get_figure_number_from_context context_text = resolve is_blank context_text"
    by (simp add: get_figure_number_from_context_def resolve_def outer_loop Let_def)
  show "get_figure_number_from_context ''...the valence dimension is shown in.'' = 8"
    by code_simp
qed

text \<open>The counterexample to claim C3: in the window \<open>pipeline\<close> stands between two tabs
  and \<open>narrative\<close> is part of a longer word. With a bonus for white space \<open>pipeline\<close>
  scores 16 + 5 and wins over \<open>narrative\<close> with 18, so the claim's answer is figure 2; the
  code gives no bonus and answers figure 4.\<close>

theorem resolver_tab_bounded:
  "get_figure_number_from_context (CHR 0x09 # ''pipeline'' @ CHR 0x09 # ''narratives'') = 4
   \<and> resolve is_space (CHR 0x09 # ''pipeline'' @ CHR 0x09 # ''narratives'') = 2"
  by code_simp

section \<open>The claims extractor: admission\<close>



text \<open>The boundaries of claim C6, where no header is cut: number 66, a body of 19
  characters, a body of 20 characters.\<close>

theorem claim_admission_boundaries:
  "extract_claims ''66. A method of doing thing'' = []
   \<and> length ''A method of doing i'' = 19
   \<and> extract_claims ''7. A method of doing i'' = []
   \<and> length ''A method of doing it'' = 20
   \<and> extract_claims ''7. A method of doing it''
       = [\<lparr>number = 7, claim_text = ''A method of doing it'', is_dependent = False\<rparr>]"
  by code_simp

section \<open>The claims extractor: order and uniqueness\<close>

lemma admit_inv: "claims_inv state \<Longrightarrow> claims_inv (admit state n txt)"
  by (cases state) (auto simp: claims_inv_def admit_def)

lemma claim_step_inv: "claims_inv state \<Longrightarrow> claims_inv (claim_step state m)"
  by (simp add: claim_step_def admit_inv)

lemma foldl_claim_step_inv: "claims_inv state \<Longrightarrow> claims_inv (foldl claim_step state ms)"
  by (induction ms arbitrary: state) (simp_all add: claim_step_inv)

lemma claims_inv_init: "claims_inv ([], {})"
  by (simp add: claims_inv_def)

text \<open>
  Claim C7. For every input text the list returned by \<open>extract_claims\<close> is sorted
  ascending by claim number, and every record carries a unique positive number.

  This fails on the code as stated (see \<open>claim_number_zero\<close> below): the number 0 is
  admitted. What holds: the numbers are strictly ascending (so sorted and unique), and
  each is at most 65.
\<close>

theorem extract_claims_sorted_unique:
  "sorted_wrt (<) (map number (extract_claims text))
   \<and> list_all (\<lambda>c. number c \<le> 65) (extract_claims text)"
proof -
  define ms where "ms = finditer IGNORECASE_DOTALL pat_claim (claims_scope text)"
  obtain claims seen where st: "foldl claim_step ([], {}) ms = (claims, seen)"
    by (cases "foldl claim_step ([], {}) ms")
  have "claims_inv (claims, seen)"
    using foldl_claim_step_inv [OF claims_inv_init, of ms] st by simp
  then have d: "distinct (map number claims)" and b: "list_all (\<lambda>c. number c \<le> 65) claims"
    by (simp_all add: claims_inv_def)
  have e: "extract_claims text = sort_key number claims"
    by (simp add: extract_claims_def ms_def [symmetric] st)
  have "distinct (map number (sort_key number claims))"
    using d by (simp add: distinct_map)
  moreover have "sorted (map number (sort_key number claims))"
    by (rule sorted_sort_key)
  moreover have "list_all (\<lambda>c. number c \<le> 65) (sort_key number claims)"
    using b by (simp add: list_all_iff)
  ultimately show ?thesis
    by (simp add: e strict_sorted_iff)
qed

text \<open>The counterexample to claim C7: a block numbered 0 is admitted.\<close>

theorem claim_number_zero:
  "map number (extract_claims ''0. A method comprising a1'') = [0]"
  by code_simp

section \<open>The section segmenter: the merge rule\<close>

text \<open>
  Claim C5. At every flush, the flush at the end of the input included, a block whose
  role already holds content is appended when the role is \<open>claims\<close> and dropped for any
  other role, so two \<open>CLAIMS\<close> blocks that are not adjacent end up in one entry.

  The flush at a heading does this; the flush after the loop tests only
  \<open>current not in sections\<close>. In the first text below the second \<open>CLAIMS\<close> block is the last
  block of the input, and \<open>parse_sections\<close> drops it: the entry \<open>claims\<close> is \<open>alpha\<close>, not
  \<open>alpha\<close>, a blank line and \<open>gamma\<close>. In the second text a heading follows the same
  block, and the block is appended.
\<close>

theorem parse_sections_final_flush_drops_claims:
  "parse_sections ''CLAIMS\<newline>alpha\<newline>ABSTRACT\<newline>beta\<newline>CLAIMS\<newline>gamma''
     = [(''claims'', ''alpha''), (''abstract'', ''beta'')]
   \<and> parse_sections ''CLAIMS\<newline>alpha\<newline>ABSTRACT\<newline>beta\<newline>CLAIMS\<newline>gamma\<newline>FIELD\<newline>delta''
     = [(''claims'', ''alpha\<newline>\<newline>gamma''), (''abstract'', ''beta''), (''field'', ''delta'')]"
  by code_simp

section \<open>The normalizer: runs of line breaks\<close>




section \<open>The normalizer: idempotence\<close>





section \<open>The repair engine: white space\<close>






end
